theory Spec2Isabelle
  imports Main "HOL-Library.Word"
begin

unbundle bit_operations_syntax

section \<open>The 40bpp animated blitter (src/blitter/40bpp\_anim.cpp)\<close>

subsection \<open>Machine types, colours and the global state\<close>

type_synonym u8 = "8 word"
type_synonym u16 = "16 word"
type_synonym u32 = "32 word"
type_synonym u64 = "64 word"

text \<open>
  Modelled from the spec: "4 independent 8-bit channels (r, g, b, a) packed into one
  32-bit word", with the usual ARGB packing \<open>data = 0xAARRGGBB\<close>.  A \<open>Colour\<close> is the
  union of a 32-bit word \<open>data\<close> with the four 8-bit channels \<open>a, r, g, b\<close>; the union
  itself is declared in gfx\_type.h, which is not part of the sources at hand.
\<close>

type_synonym Colour = u32

definition Colour_a :: "Colour \<Rightarrow> u8" where
  "Colour_a c = ucast (drop_bit 24 c)"

definition Colour_r :: "Colour \<Rightarrow> u8" where
  "Colour_r c = ucast (drop_bit 16 c)"

definition Colour_g :: "Colour \<Rightarrow> u8" where
  "Colour_g c = ucast (drop_bit 8 c)"

definition Colour_b :: "Colour \<Rightarrow> u8" where
  "Colour_b c = ucast c"

text \<open>The constructor \<open>Colour(r, g, b, a = 0xFF)\<close>.\<close>

definition mk_Colour :: "u8 \<Rightarrow> u8 \<Rightarrow> u8 \<Rightarrow> u8 \<Rightarrow> Colour" where
  "mk_Colour r g b a =
     push_bit 24 (ucast a) OR push_bit 16 (ucast r) OR push_bit 8 (ucast g) OR ucast b"

text \<open>\<open>static const Colour _black_colour(0, 0, 0)\<close>: the alpha channel takes its default.\<close>

definition black_colour :: Colour where
  "black_colour = mk_Colour 0 0 0 0xFF"

text \<open>\<open>PixelColour\<close>: only its palette index \<open>p\<close> is read here.\<close>

record PixelColour =
  colour_p :: u8

text \<open>
  Pointers into the colour buffer are addresses counted in pixels (32-bit cells);
  \<open>vmem\<close> is the memory they point into.  The animation buffer is a separate byte
  array, indexed from \<open>VideoDriver::GetInstance()->GetAnimBuffer()\<close>; \<open>None\<close> is the
  null pointer.  \<open>dst_ptr\<close>, \<open>s_width\<close>, \<open>s_height\<close>, \<open>s_pitch\<close> are the fields of
  the global \<open>_screen\<close>; address \<open>0\<close> is \<open>nullptr\<close>.
\<close>

record Screen =
  screen_disable_anim :: bool
  dst_ptr :: int
  s_width :: int
  s_height :: int
  s_pitch :: int
  vmem :: "int \<Rightarrow> Colour"
  anim_buf :: "(int \<Rightarrow> u8) option"

datatype error = AssertionFailed | NotReached | NullDereference

text \<open>Conversions of a C \<open>int\<close> to \<open>uint\<close> (32 bit) and to \<open>size_t\<close> (64 bit).\<close>

definition to_uint :: "int \<Rightarrow> nat" where
  "to_uint i = nat (i mod 2 ^ 32)"

definition to_size_t :: "int \<Rightarrow> int" where
  "to_size_t i = i mod 2 ^ 64"

subsection \<open>Sprites, draw requests and the collaborators\<close>

text \<open>
  \<open>SpriteData\<close>: the byte array \<open>data\<close> is read through two typed views,
  \<open>data_px\<close> (32-bit cells: a line's length prefix and its \<open>Colour\<close>s) and
  \<open>data_n\<close> (16-bit cells: the \<open>m\<close> and \<open>n\<close> channels); cell \<open>k\<close> of a view
  stands for the bytes from \<open>4 * k\<close> (from \<open>2 * k\<close>) on.  \<open>offset i zoom\<close> is
  \<open>offset[i][zoom]\<close>, in bytes.
\<close>

record SpriteData =
  data_px :: "nat \<Rightarrow> u32"
  data_n :: "nat \<Rightarrow> u16"
  offset :: "nat \<Rightarrow> nat \<Rightarrow> nat"

text \<open>
  \<open>Blitter::BlitterParams\<close>; \<open>bp_dst\<close> is the address \<open>bp->dst\<close> (in pixels) and
  \<open>bp_remap\<close> the 256-entry table \<open>bp->remap\<close>.
\<close>

record BlitterParams =
  bp_sprite :: SpriteData
  bp_remap :: "u8 \<Rightarrow> u8"
  bp_skip_left :: int
  bp_skip_top :: int
  bp_width :: int
  bp_height :: int
  bp_left :: int
  bp_top :: int
  bp_dst :: int
  bp_pitch :: int

text \<open>
  Modelled from the spec: the enumeration "{Normal, ColourRemap, Transparent,
  TransparentRemap, CrashRemap, BlackRemap}", numbered in that order; any other byte is
  an unrecognised mode.  \<open>enum class BlitterMode : uint8_t\<close> is declared in
  blitter/base.hpp, which is not part of the sources at hand.
\<close>

type_synonym BlitterMode = u8

definition Normal :: BlitterMode where "Normal = 0"
definition ColourRemap :: BlitterMode where "ColourRemap = 1"
definition Transparent :: BlitterMode where "Transparent = 2"
definition TransparentRemap :: BlitterMode where "TransparentRemap = 3"
definition CrashRemap :: BlitterMode where "CrashRemap = 4"
definition BlackRemap :: BlitterMode where "BlackRemap = 5"

text \<open>
  The colour primitives the blitter calls (32bpp\_base.hpp, 40bpp\_anim.hpp,
  palette\_func.h) are not part of the sources at hand: they are parameters of the model.
\<close>

record colour_prims =
  MakeDark :: "Colour \<Rightarrow> Colour"
  RealizeBlendedColour :: "u8 \<Rightarrow> Colour \<Rightarrow> Colour"
  ComposeColourRGBANoCheck :: "u8 \<Rightarrow> u8 \<Rightarrow> u8 \<Rightarrow> u8 \<Rightarrow> Colour \<Rightarrow> Colour"
  ComposeColourPANoCheck :: "Colour \<Rightarrow> u8 \<Rightarrow> Colour \<Rightarrow> Colour"
  LookupColourInPalette :: "u8 \<Rightarrow> Colour"
  MakeTransparent :: "Colour \<Rightarrow> nat \<Rightarrow> nat \<Rightarrow> Colour"
  GetColourBrightness :: "Colour \<Rightarrow> u8"
  GetNearestColourIndex :: "Colour \<Rightarrow> u8"

text \<open>
  The methods of the parent class \<open>Blitter_32bppOptimized\<close> this blitter falls back to.
  They are not part of the sources at hand and are parameters of the model.  The parent
  knows nothing of the animation buffer, so its methods map colour memory to colour
  memory.
\<close>

record Blitter_32bppOptimized =
  parent_SetPixel :: "int \<Rightarrow> int \<Rightarrow> int \<Rightarrow> PixelColour \<Rightarrow> (int \<Rightarrow> Colour) \<Rightarrow> (int \<Rightarrow> Colour)"
  parent_DrawRect :: "int \<Rightarrow> int \<Rightarrow> int \<Rightarrow> PixelColour \<Rightarrow> (int \<Rightarrow> Colour) \<Rightarrow> (int \<Rightarrow> Colour)"
  parent_Draw :: "BlitterParams \<Rightarrow> BlitterMode \<Rightarrow> nat \<Rightarrow> (int \<Rightarrow> Colour)
                    \<Rightarrow> (error + (int \<Rightarrow> Colour)) option"

text \<open>
  Modelled from the spec: \<open>GB(x, s, n)\<close> (core/bitmath\_func.hpp, not part of the
  sources at hand) reads "low byte = remap/animation-class index m", i.e. \<open>n\<close> bits of \<open>x\<close>
  from bit \<open>s\<close> on.
\<close>

definition GB :: "u16 \<Rightarrow> nat \<Rightarrow> nat \<Rightarrow> u16" where
  "GB x s n = drop_bit s x AND mask n"

subsection \<open>SetPixel and DrawRect\<close>

text \<open>
  SetPixel (lines 30 to 40).  \<open>y_offset\<close> is a \<open>size_t\<close>, so both sums with it are taken
  modulo \<open>2 ^ 64\<close>: the animation byte written is the one at the index
  \<open>(video - _screen.dst_ptr) + x + y_offset\<close> reduced modulo \<open>2 ^ 64\<close>, and the colour
  cell written is the one as far from \<open>_screen.dst_ptr\<close>.
\<close>

definition SetPixel ::
  "Blitter_32bppOptimized \<Rightarrow> int \<Rightarrow> int \<Rightarrow> int \<Rightarrow> PixelColour \<Rightarrow> Screen \<Rightarrow> error + Screen" where
  "SetPixel parent video x y colour S =
     (if screen_disable_anim S then
        Inr (S\<lparr>vmem := parent_SetPixel parent video x y colour (vmem S)\<rparr>)
      else
        let y_offset = to_size_t (to_size_t y * to_size_t (s_pitch S));
            vm = (vmem S)(dst_ptr S + to_size_t ((video - dst_ptr S) + x + y_offset)
                            := black_colour)
        in case anim_buf S of
             None \<Rightarrow> Inl NullDereference
           | Some am \<Rightarrow>
               Inr (S\<lparr>vmem := vm,
                      anim_buf := Some (am(to_size_t ((video - dst_ptr S) + x + y_offset)
                                           := colour_p colour))\<rparr>))"

text \<open>The inner loop \<open>for (int i = width; i > 0; i--)\<close> of DrawRect, \<open>i\<close> iterations left.\<close>

fun DrawRect_line ::
  "nat \<Rightarrow> u8 \<Rightarrow> int \<Rightarrow> int \<Rightarrow> (int \<Rightarrow> Colour) \<times> (int \<Rightarrow> u8) \<Rightarrow> (int \<Rightarrow> Colour) \<times> (int \<Rightarrow> u8)" where
  "DrawRect_line 0 pv dst anim bufs = bufs"
| "DrawRect_line (Suc i) pv dst anim (vm, am) =
     DrawRect_line i pv (dst + 1) (anim + 1) (vm(dst := black_colour), am(anim := pv))"

text \<open>
  The outer loop \<open>do { ... } while (--height)\<close>, with the number of times the body still
  runs.
\<close>

fun DrawRect_rows ::
  "nat \<Rightarrow> nat \<Rightarrow> int \<Rightarrow> u8 \<Rightarrow> int \<Rightarrow> int \<Rightarrow> (int \<Rightarrow> Colour) \<times> (int \<Rightarrow> u8) \<Rightarrow> (int \<Rightarrow> Colour) \<times> (int \<Rightarrow> u8)" where
  "DrawRect_rows 0 w pitch pv video anim_line bufs = bufs"
| "DrawRect_rows (Suc k) w pitch pv video anim_line bufs =
     DrawRect_rows k w pitch pv (video + pitch) (anim_line + pitch)
       (DrawRect_line w pv video anim_line bufs)"

text \<open>
  How often a \<open>do { ... } while (--n)\<close> body runs for a 32-bit counter that starts at
  \<open>n\<close>: \<open>n\<close> times, and \<open>2 ^ 32\<close> times when it starts at \<open>0\<close> (the counter wraps).
\<close>

definition do_while_count :: "int \<Rightarrow> nat" where
  "do_while_count n = (if n mod 2 ^ 32 = 0 then 2 ^ 32 else nat (n mod 2 ^ 32))"

definition DrawRect ::
  "Blitter_32bppOptimized \<Rightarrow> int \<Rightarrow> int \<Rightarrow> int \<Rightarrow> PixelColour \<Rightarrow> Screen \<Rightarrow> error + Screen" where
  "DrawRect parent video width height colour S =
     (if screen_disable_anim S then
        Inr (S\<lparr>vmem := parent_DrawRect parent video width height colour (vmem S)\<rparr>)
      else case anim_buf S of
          None \<Rightarrow> Inl AssertionFailed
        | Some am \<Rightarrow>
            let anim_line = video - dst_ptr S;
                (vm', am') = DrawRect_rows (do_while_count height) (nat width) (s_pitch S)
                               (colour_p colour) video anim_line (vmem S, am)
            in Inr (S\<lparr>vmem := vm', anim_buf := Some am'\<rparr>))"

text \<open>
  The cells of a rectangle of \<open>height\<close> lines of \<open>width\<close> cells, \<open>pitch\<close> apart, whose
  first cell is \<open>base\<close> (vocabulary of the statements about DrawRect, not code).
\<close>

definition in_rect :: "int \<Rightarrow> int \<Rightarrow> int \<Rightarrow> int \<Rightarrow> int \<Rightarrow> bool" where
  "in_rect base pitch width height q =
     list_ex (\<lambda>j. base + int j * pitch \<le> q \<and> q < base + int j * pitch + width) [0..<nat height]"

subsection \<open>BufferSize\<close>

text \<open>
  \<open>(sizeof(uint32_t) + sizeof(uint8_t)) * width * height\<close>, computed in \<open>size_t\<close>
  (64 bit) from two \<open>uint\<close> arguments.
\<close>

definition BufferSize :: "u32 \<Rightarrow> u32 \<Rightarrow> u64" where
  "BufferSize width height = (4 + 1) * ucast width * ucast height"

subsection \<open>CopyToBuffer and CopyFromBuffer\<close>

text \<open>
  The caller's buffer is byte memory, addressed by an \<open>int\<close>.  A 32-bit cell lies in it
  as four bytes, low byte first (the layout of the little-endian targets).
\<close>

definition store32 :: "(int \<Rightarrow> u8) \<Rightarrow> int \<Rightarrow> u32 \<Rightarrow> (int \<Rightarrow> u8)" where
  "store32 mem a w =
     mem(a := ucast w, a + 1 := ucast (drop_bit 8 w), a + 2 := ucast (drop_bit 16 w),
         a + 3 := ucast (drop_bit 24 w))"

definition load32 :: "(int \<Rightarrow> u8) \<Rightarrow> int \<Rightarrow> u32" where
  "load32 mem a =
     ucast (mem a) OR push_bit 8 (ucast (mem (a + 1))) OR push_bit 16 (ucast (mem (a + 2))) OR
     push_bit 24 (ucast (mem (a + 3)))"

text \<open>
  The four uses of \<open>std::copy_n(first, count, result)\<close>: \<open>count\<close> cells from address
  \<open>first\<close> of one memory to address \<open>result\<close> of another.
\<close>

fun copy_n_vmem_to_buf :: "nat \<Rightarrow> (int \<Rightarrow> u32) \<Rightarrow> int \<Rightarrow> (int \<Rightarrow> u8) \<Rightarrow> int \<Rightarrow> (int \<Rightarrow> u8)" where
  "copy_n_vmem_to_buf 0 vm first buf result = buf"
| "copy_n_vmem_to_buf (Suc n) vm first buf result =
     copy_n_vmem_to_buf n vm (first + 1) (store32 buf result (vm first)) (result + 4)"

fun copy_n_anim_to_buf :: "nat \<Rightarrow> (int \<Rightarrow> u8) \<Rightarrow> int \<Rightarrow> (int \<Rightarrow> u8) \<Rightarrow> int \<Rightarrow> (int \<Rightarrow> u8)" where
  "copy_n_anim_to_buf 0 am first buf result = buf"
| "copy_n_anim_to_buf (Suc n) am first buf result =
     copy_n_anim_to_buf n am (first + 1) (buf(result := am first)) (result + 1)"

fun copy_n_buf_to_vmem :: "nat \<Rightarrow> (int \<Rightarrow> u8) \<Rightarrow> int \<Rightarrow> (int \<Rightarrow> u32) \<Rightarrow> int \<Rightarrow> (int \<Rightarrow> u32)" where
  "copy_n_buf_to_vmem 0 buf first vm result = vm"
| "copy_n_buf_to_vmem (Suc n) buf first vm result =
     copy_n_buf_to_vmem n buf (first + 4) (vm(result := load32 buf first)) (result + 1)"

fun copy_n_buf_to_anim :: "nat \<Rightarrow> (int \<Rightarrow> u8) \<Rightarrow> int \<Rightarrow> (int \<Rightarrow> u8) \<Rightarrow> int \<Rightarrow> (int \<Rightarrow> u8)" where
  "copy_n_buf_to_anim 0 buf first am result = am"
| "copy_n_buf_to_anim (Suc n) buf first am result =
     copy_n_buf_to_anim n buf (first + 1) (am(result := buf first)) (result + 1)"

text \<open>
  The loop \<open>for (; height > 0; height--)\<close> of CopyToBuffer (lines 442 to 450), with
  \<open>h\<close> lines left; \<open>udst\<close> is a byte address in the caller's buffer.  \<open>std::copy_n\<close>
  copies nothing for a count that is not positive, but the cursors move by \<open>width\<close> all
  the same.
\<close>

fun CopyToBuffer_lines ::
  "nat \<Rightarrow> int \<Rightarrow> int \<Rightarrow> (int \<Rightarrow> Colour) \<Rightarrow> (int \<Rightarrow> u8) \<Rightarrow> int \<Rightarrow> int \<Rightarrow> int \<Rightarrow> (int \<Rightarrow> u8)
     \<Rightarrow> (int \<Rightarrow> u8)" where
  "CopyToBuffer_lines 0 width pitch vm am src anim_line udst buf = buf"
| "CopyToBuffer_lines (Suc h) width pitch vm am src anim_line udst buf =
     (let buf1 = copy_n_vmem_to_buf (nat width) vm src buf udst;
          udst1 = udst + 4 * width;
          buf2 = copy_n_anim_to_buf (nat width) am anim_line buf1 udst1;
          udst2 = udst1 + width
      in CopyToBuffer_lines h width pitch vm am (src + pitch) (anim_line + pitch) udst2 buf2)"

text \<open>The assertion on \<open>video\<close> that CopyToBuffer, CopyFromBuffer and ScrollBuffer share.\<close>

definition video_in_screen :: "Screen \<Rightarrow> int \<Rightarrow> bool" where
  "video_in_screen S video =
     (dst_ptr S \<le> video \<and> video \<le> dst_ptr S + s_width S + s_height S * s_pitch S)"

definition CopyToBuffer :: "int \<Rightarrow> int \<Rightarrow> int \<Rightarrow> int \<Rightarrow> Screen \<Rightarrow> (int \<Rightarrow> u8) \<Rightarrow> error + (int \<Rightarrow> u8)" where
  "CopyToBuffer video dst width height S buf =
     (if screen_disable_anim S then Inl AssertionFailed
      else if \<not> video_in_screen S video then Inl AssertionFailed
      else case anim_buf S of
          None \<Rightarrow> Inr buf
        | Some am \<Rightarrow>
            Inr (CopyToBuffer_lines (nat height) width (s_pitch S) (vmem S) am video
                   (video - dst_ptr S) dst buf))"

text \<open>The loop of CopyFromBuffer (lines 420 to 428).\<close>

fun CopyFromBuffer_lines ::
  "nat \<Rightarrow> int \<Rightarrow> int \<Rightarrow> (int \<Rightarrow> u8) \<Rightarrow> int \<Rightarrow> int \<Rightarrow> int \<Rightarrow> (int \<Rightarrow> Colour) \<times> (int \<Rightarrow> u8)
     \<Rightarrow> (int \<Rightarrow> Colour) \<times> (int \<Rightarrow> u8)" where
  "CopyFromBuffer_lines 0 width pitch buf usrc dst anim_line B = B"
| "CopyFromBuffer_lines (Suc h) width pitch buf usrc dst anim_line (vm, am) =
     (let vm1 = copy_n_buf_to_vmem (nat width) buf usrc vm dst;
          usrc1 = usrc + 4 * width;
          am1 = copy_n_buf_to_anim (nat width) buf usrc1 am anim_line;
          usrc2 = usrc1 + width
      in CopyFromBuffer_lines h width pitch buf usrc2 (dst + pitch) (anim_line + pitch) (vm1, am1))"

definition CopyFromBuffer :: "int \<Rightarrow> int \<Rightarrow> int \<Rightarrow> int \<Rightarrow> (int \<Rightarrow> u8) \<Rightarrow> Screen \<Rightarrow> error + Screen" where
  "CopyFromBuffer video src width height buf S =
     (if screen_disable_anim S then Inl AssertionFailed
      else if \<not> video_in_screen S video then Inl AssertionFailed
      else case anim_buf S of
          None \<Rightarrow> Inr S
        | Some am \<Rightarrow>
            (let (vm', am') = CopyFromBuffer_lines (nat height) width (s_pitch S) buf src video
                                (video - dst_ptr S) (vmem S, am)
             in Inr (S\<lparr>vmem := vm', anim_buf := Some am'\<rparr>)))"

subsection \<open>ScrollBuffer\<close>

text \<open>
  Modelled from the spec: "shifts pixel content within the same buffer", line by line
  from the line \<open>src\<close> and \<open>dst\<close> point at, each line moved as a whole (source and
  destination of a line may overlap), and on to the next line by \<open>pitch\<close>.
  \<open>Blitter::MovePixels(src, dst, width, height, pitch)\<close> is declared in blitter/base.hpp,
  which is not part of the sources at hand.
\<close>

definition move_line :: "(int \<Rightarrow> 'a) \<Rightarrow> int \<Rightarrow> int \<Rightarrow> nat \<Rightarrow> (int \<Rightarrow> 'a)" where
  "move_line mem src dst n =
     (\<lambda>q. if dst \<le> q \<and> q < dst + int n then mem (src + (q - dst)) else mem q)"

fun MovePixels :: "nat \<Rightarrow> nat \<Rightarrow> int \<Rightarrow> int \<Rightarrow> int \<Rightarrow> (int \<Rightarrow> 'a) \<Rightarrow> (int \<Rightarrow> 'a)" where
  "MovePixels 0 width pitch src dst mem = mem"
| "MovePixels (Suc h) width pitch src dst mem =
     MovePixels h width pitch (src + pitch) (dst + pitch) (move_line mem src dst width)"

text \<open>
  The window the animation bytes are moved in (lines 483 to 512): the first line to move
  (\<open>src\<close> to \<open>dst\<close>), the extent \<open>tw\<close> by \<open>th\<close> (both \<open>uint\<close>), and the step from
  line to line, from the rectangle and the scroll; \<open>base\<close> is the pointer the rectangle
  is counted from.
\<close>

definition scroll_window :: "int \<Rightarrow> int \<Rightarrow> int \<Rightarrow> int \<Rightarrow> int \<Rightarrow> int \<Rightarrow> int \<Rightarrow> int \<Rightarrow> int \<times> int \<times> nat \<times> nat \<times> int" where
  "scroll_window base pitch left top' width height scroll_x scroll_y =
     (if scroll_y > 0 then
        let dst = base + left + (top' + height - 1) * pitch;
            src = dst - scroll_y * pitch;
            dst = (if scroll_x \<ge> 0 then dst + scroll_x else dst);
            src = (if scroll_x \<ge> 0 then src else src - scroll_x);
            tw = to_uint (width + (if scroll_x \<ge> 0 then - scroll_x else scroll_x));
            th = to_uint (height - scroll_y)
        in (src, dst, tw, th, - pitch)
      else
        let dst = base + left + top' * pitch;
            src = dst - scroll_y * pitch;
            dst = (if scroll_x \<ge> 0 then dst + scroll_x else dst);
            src = (if scroll_x \<ge> 0 then src else src - scroll_x);
            tw = to_uint (width + (if scroll_x \<ge> 0 then - scroll_x else scroll_x));
            th = to_uint (height + scroll_y)
        in (src, dst, tw, th, pitch))"

text \<open>
  Modelled from the spec: the colour-buffer move has "the identical geometry" as the move
  of the animation buffer, counted from \<open>video\<close>.  \<open>Blitter_32bppBase::ScrollBuffer\<close> is
  not part of the sources at hand.
\<close>

definition Base_ScrollBuffer ::
  "int \<Rightarrow> int \<Rightarrow> int \<Rightarrow> int \<Rightarrow> int \<Rightarrow> int \<Rightarrow> int \<Rightarrow> int \<Rightarrow> (int \<Rightarrow> Colour) \<Rightarrow> (int \<Rightarrow> Colour)" where
  "Base_ScrollBuffer video pitch left top' width height scroll_x scroll_y vm =
     (let (src, dst, tw, th, step) = scroll_window video pitch left top' width height scroll_x scroll_y
      in MovePixels th tw step src dst vm)"

text \<open>
  ScrollBuffer (lines 475 to 515).  The animation bytes are moved in the window counted
  from \<open>anim_buf\<close> itself (index 0), then the parent moves the colours.  Moving within
  a null animation buffer is a failure of the model.
\<close>

definition ScrollBuffer ::
  "int \<Rightarrow> int \<Rightarrow> int \<Rightarrow> int \<Rightarrow> int \<Rightarrow> int \<Rightarrow> int \<Rightarrow> Screen \<Rightarrow> error + Screen" where
  "ScrollBuffer video left top' width height scroll_x scroll_y S =
     (if screen_disable_anim S then Inl AssertionFailed
      else if \<not> video_in_screen S video then Inl AssertionFailed
      else case anim_buf S of
          None \<Rightarrow> Inl NullDereference
        | Some am \<Rightarrow>
            (let (src, dst, tw, th, step) =
                   scroll_window 0 (s_pitch S) left top' width height scroll_x scroll_y;
                 am' = MovePixels th tw step src dst am
             in Inr (S\<lparr>anim_buf := Some am',
                      vmem := Base_ScrollBuffer video (s_pitch S) left top' width height
                                scroll_x scroll_y (vmem S)\<rparr>)))"

subsection \<open>Draw: the cursors and the per-pixel compositions\<close>

text \<open>
  The local variables of \<open>Draw<mode>\<close>: the two buffers being written, the cursors
  \<open>dst\<close> (an address in the colour memory), \<open>anim\<close> (an index into the animation
  buffer), \<open>src_px\<close> and \<open>src_n\<close> (cells of the two sprite views), and \<open>dst_end\<close>.
\<close>

record draw_state =
  ds_vmem :: "int \<Rightarrow> Colour"
  ds_anim :: "int \<Rightarrow> u8"
  dst :: int
  anim :: int
  src_px :: nat
  src_n :: nat
  dst_end :: int

text \<open>
  What one iteration of an inner loop writes, as a function of the source pixel
  \<open>*src_px\<close>, the source cell \<open>*src_n\<close> and the current contents \<open>(*dst, *anim)\<close>;
  the result is the new contents of \<open>(*dst, *anim)\<close>, and a component that comes back
  unchanged is one the source does not write.
\<close>

type_synonym px_op = "Colour \<Rightarrow> u16 \<Rightarrow> Colour \<times> u8 \<Rightarrow> Colour \<times> u8"

text \<open>ColourRemap and CrashRemap, \<open>src_px->a == 255\<close> (lines 187 to 204).\<close>

definition px_remap_opaque :: "colour_prims \<Rightarrow> (u8 \<Rightarrow> u8) \<Rightarrow> BlitterMode \<Rightarrow> px_op" where
  "px_remap_opaque P remap mode px e da =
     (let m = (ucast (GB e 0 8) :: u8) in
      if m = 0 then ((if mode = CrashRemap then MakeDark P px else px), 0)
      else let r = remap m in
           if r \<noteq> 0 then (px, r) else da)"

text \<open>ColourRemap and CrashRemap, translucent (lines 206 to 224).\<close>

definition px_remap_blend :: "colour_prims \<Rightarrow> (u8 \<Rightarrow> u8) \<Rightarrow> BlitterMode \<Rightarrow> px_op" where
  "px_remap_blend P remap mode px e da =
     (let m = (ucast (GB e 0 8) :: u8);
          b = RealizeBlendedColour P (snd da) (fst da) in
      if m = 0 then
        let c = (if mode = CrashRemap then MakeDark P px else px) in
        (ComposeColourRGBANoCheck P (Colour_r c) (Colour_g c) (Colour_b c) (Colour_a px) b, 0)
      else let r = remap m in
           if r \<noteq> 0 then
             (ComposeColourPANoCheck P (LookupColourInPalette P r) (Colour_a px) b, 0)
           else da)"

text \<open>BlackRemap (lines 229 to 234).\<close>

definition px_black :: px_op where
  "px_black px e da = (black_colour, 0)"

text \<open>Transparent, \<open>src_px->a == 255\<close> (lines 242 to 250): \<open>*anim\<close> is not written.\<close>

definition px_transparent_opaque :: "colour_prims \<Rightarrow> px_op" where
  "px_transparent_opaque P px e da =
     (let b = (if snd da \<noteq> 0 then mk_Colour (GetColourBrightness P (fst da)) 0 0 0xFF
               else fst da)
      in (MakeTransparent P b 3 4, snd da))"

text \<open>Transparent, translucent (lines 252 to 259).\<close>

definition px_transparent_blend :: "colour_prims \<Rightarrow> px_op" where
  "px_transparent_blend P px e da =
     (let b = RealizeBlendedColour P (snd da) (fst da)
      in (MakeTransparent P b (256 * 4 - unat (Colour_a px)) (256 * 4), 0))"

text \<open>TransparentRemap (lines 268 to 277).\<close>

definition px_transparent_remap :: "colour_prims \<Rightarrow> (u8 \<Rightarrow> u8) \<Rightarrow> px_op" where
  "px_transparent_remap P remap px e da =
     (if snd da \<noteq> 0 then (fst da, remap (snd da))
      else (LookupColourInPalette P (remap (GetNearestColourIndex P (fst da))), 0))"

text \<open>Normal (the \<open>default\<close> label), \<open>src_px->a == 255\<close> (lines 287 to 292).\<close>

definition px_normal_opaque :: px_op where
  "px_normal_opaque px e da = (px, ucast (GB e 0 8))"

text \<open>Normal, translucent (lines 295 to 311).\<close>

definition px_normal_blend :: "colour_prims \<Rightarrow> px_op" where
  "px_normal_blend P px e da =
     (let m = (ucast (GB e 0 8) :: u8);
          b = RealizeBlendedColour P (snd da) (fst da) in
      if m = 0 then
        (ComposeColourRGBANoCheck P (Colour_r px) (Colour_g px) (Colour_b px) (Colour_a px) b, 0)
      else
        (ComposeColourPANoCheck P (LookupColourInPalette P m) (Colour_a px) b, m))"

text \<open>
  One iteration of an inner loop: compose at the cursors, then \<open>anim++; dst++\<close>, and
  \<open>src_px++\<close>, \<open>src_n++\<close> where the loop has them (\<open>adv_px\<close>, \<open>adv_n\<close>).
\<close>

definition px_step :: "px_op \<Rightarrow> bool \<Rightarrow> bool \<Rightarrow> SpriteData \<Rightarrow> draw_state \<Rightarrow> draw_state" where
  "px_step f adv_px adv_n sp s =
     (let da = f (data_px sp (src_px s)) (data_n sp (src_n s))
                 (ds_vmem s (dst s), ds_anim s (anim s))
      in s\<lparr>ds_vmem := (ds_vmem s)(dst s := fst da),
            ds_anim := (ds_anim s)(anim s := snd da),
            dst := dst s + 1,
            anim := anim s + 1,
            src_px := (if adv_px then src_px s + 1 else src_px s),
            src_n := (if adv_n then src_n s + 1 else src_n s)\<rparr>)"

fun repeat :: "nat \<Rightarrow> ('s \<Rightarrow> 's) \<Rightarrow> 's \<Rightarrow> 's" where
  "repeat 0 body s = s"
| "repeat (Suc k) body s = repeat k body (body s)"

text \<open>
  \<open>do { body } while (--n != 0)\<close> for the \<open>uint\<close> counter \<open>n\<close>: the body runs \<open>n\<close>
  times, and \<open>2 ^ 32\<close> times when \<open>n\<close> starts at \<open>0\<close>.
\<close>

definition do_while :: "nat \<Rightarrow> ('s \<Rightarrow> 's) \<Rightarrow> 's \<Rightarrow> 's" where
  "do_while n body s = repeat (if n = 0 then 2 ^ 32 else n) body s"

text \<open>The \<open>switch (mode)\<close> at the label \<open>draw\<close> (lines 183 to 313), for a run of \<open>n\<close>.\<close>

definition draw_run ::
  "colour_prims \<Rightarrow> SpriteData \<Rightarrow> (u8 \<Rightarrow> u8) \<Rightarrow> BlitterMode \<Rightarrow> nat \<Rightarrow> draw_state \<Rightarrow> draw_state" where
  "draw_run P sp remap mode n s =
     (if mode = ColourRemap \<or> mode = CrashRemap then
        (if Colour_a (data_px sp (src_px s)) = 255
         then do_while n (px_step (px_remap_opaque P remap mode) True True sp) s
         else do_while n (px_step (px_remap_blend P remap mode) True True sp) s)
      else if mode = BlackRemap then
        do_while n (px_step px_black True True sp) s
      else if mode = Transparent then
        (let s = s\<lparr>src_n := src_n s + n\<rparr> in
         if Colour_a (data_px sp (src_px s)) = 255
         then do_while n (px_step (px_transparent_opaque P) False False sp)
                (s\<lparr>src_px := src_px s + n\<rparr>)
         else do_while n (px_step (px_transparent_blend P) True False sp) s)
      else if mode = TransparentRemap then
        (let s = s\<lparr>src_n := src_n s + n\<rparr> in
         if Colour_a (data_px sp (src_px s)) \<noteq> 0
         then do_while n (px_step (px_transparent_remap P remap) False False sp)
                (s\<lparr>src_px := src_px s + n\<rparr>)
         else s\<lparr>dst := dst s + int n, anim := anim s + int n, src_px := src_px s + n\<rparr>)
      else
        (if Colour_a (data_px sp (src_px s)) = 255
         then do_while n (px_step px_normal_opaque True True sp) s
         else do_while n (px_step (px_normal_blend P) True True sp) s))"

subsection \<open>Draw: the loops over a line\<close>

text \<open>\<open>n - d\<close> on \<open>uint\<close>.\<close>

definition sub_uint :: "nat \<Rightarrow> nat \<Rightarrow> nat" where
  "sub_uint a b = nat ((int a - int b) mod 2 ^ 32)"

text \<open>
  The first loop of a line (lines 138 to 163) skips \<open>skip_left\<close> pixels.  It ends
  either by falling through (\<open>None\<close>) or by the \<open>goto draw\<close> with the rest \<open>n\<close> of the
  run that straddles the clip edge (\<open>Some n\<close>).  Nothing bounds the loop on sprite data
  whose runs are empty, so not returning is the value \<open>None\<close> of the outer option.
\<close>

partial_function (option) skip_left_loop ::
  "SpriteData \<Rightarrow> BlitterParams \<Rightarrow> draw_state \<Rightarrow> (draw_state \<times> nat option) option" where
  "skip_left_loop sp bp s =
     (if dst s < dst_end s then
        let n = unat (data_n sp (src_n s));
            s = s\<lparr>src_n := src_n s + 1\<rparr>
        in if Colour_a (data_px sp (src_px s)) = 0 then
             let s = s\<lparr>dst := dst s + int n, src_px := src_px s + 1, src_n := src_n s + 1\<rparr>;
                 s = (if dst s > dst_end s then s\<lparr>anim := anim s + (dst s - dst_end s)\<rparr> else s)
             in skip_left_loop sp bp s
           else if dst s + int n > dst_end s then
             let d = to_uint (dst_end s - dst s);
                 s = s\<lparr>src_px := src_px s + d, src_n := src_n s + d\<rparr>;
                 s = s\<lparr>dst := dst_end s - bp_skip_left bp\<rparr>;
                 s = s\<lparr>dst_end := dst s + bp_width bp\<rparr>
             in Some (s, Some (min (sub_uint n d) (to_uint (bp_width bp))))
           else
             skip_left_loop sp bp
               (s\<lparr>dst := dst s + int n, src_px := src_px s + n, src_n := src_n s + n\<rparr>)
      else Some (s, None))"

declare skip_left_loop.simps [code]

text \<open>
  The second loop of a line (lines 170 to 314); \<open>pending = Some n\<close> enters it at the
  label \<open>draw\<close>.
\<close>

partial_function (option) draw_loop ::
  "colour_prims \<Rightarrow> SpriteData \<Rightarrow> (u8 \<Rightarrow> u8) \<Rightarrow> BlitterMode \<Rightarrow> nat option \<Rightarrow> draw_state
     \<Rightarrow> draw_state option" where
  "draw_loop P sp remap mode pending s =
     (case pending of
        Some n \<Rightarrow> draw_loop P sp remap mode None (draw_run P sp remap mode n s)
      | None \<Rightarrow>
          if dst s < dst_end s then
            let n = min (unat (data_n sp (src_n s))) (to_uint (dst_end s - dst s));
                s = s\<lparr>src_n := src_n s + 1\<rparr>
            in if Colour_a (data_px sp (src_px s)) = 0 then
                 draw_loop P sp remap mode None
                   (s\<lparr>anim := anim s + int n, dst := dst s + int n,
                      src_px := src_px s + 1, src_n := src_n s + 1\<rparr>)
               else draw_loop P sp remap mode None (draw_run P sp remap mode n s)
          else Some s)"

declare draw_loop.simps [code]

text \<open>
  Where the next line of a view begins: the cursor plus the byte count stored in the
  line's first four bytes; in the 16-bit view the count is read from two cells, low half
  first.
\<close>

definition next_px_line :: "SpriteData \<Rightarrow> nat \<Rightarrow> nat" where
  "next_px_line sp c = c + unat (data_px sp c) div 4"

definition next_n_line :: "SpriteData \<Rightarrow> nat \<Rightarrow> nat" where
  "next_n_line sp c = c + (unat (data_n sp c) + 2 ^ 16 * unat (data_n sp (c + 1))) div 2"

text \<open>
  The two loops of a line, from the first \<open>while\<close> to the end of the second (lines
  138 to 314), with the cursor adjustments between them (lines 165 to 168) that the
  \<open>goto\<close> jumps over.
\<close>

definition line_loops ::
  "colour_prims \<Rightarrow> SpriteData \<Rightarrow> BlitterParams \<Rightarrow> BlitterMode \<Rightarrow> draw_state \<Rightarrow> draw_state option" where
  "line_loops P sp bp mode s =
     (case skip_left_loop sp bp s of
        None \<Rightarrow> None
      | Some (s, pending) \<Rightarrow>
          (let s = (case pending of
                      None \<Rightarrow> s\<lparr>dst := dst s - bp_skip_left bp,
                                 dst_end := dst_end s - bp_skip_left bp + bp_width bp\<rparr>
                    | Some n \<Rightarrow> s)
           in draw_loop P sp (bp_remap bp) mode pending s))"

text \<open>The body of \<open>for (int y = 0; y < bp->height; y++)\<close> (lines 120 to 319).\<close>

definition draw_line ::
  "colour_prims \<Rightarrow> SpriteData \<Rightarrow> BlitterParams \<Rightarrow> BlitterMode \<Rightarrow> draw_state \<Rightarrow> draw_state option" where
  "draw_line P sp bp mode s =
     (let dst_ln = dst s + bp_pitch bp;
          anim_ln = anim s + bp_pitch bp;
          src_px_ln = next_px_line sp (src_px s);
          s = s\<lparr>src_px := src_px s + 1\<rparr>;
          src_n_ln = next_n_line sp (src_n s);
          s = s\<lparr>src_n := src_n s + 2\<rparr>;
          s = s\<lparr>dst_end := dst s + bp_skip_left bp\<rparr>
      in case line_loops P sp bp mode s of
           None \<Rightarrow> None
         | Some s \<Rightarrow>
             Some (s\<lparr>dst := dst_ln, anim := anim_ln,
                     src_px := src_px_ln, src_n := src_n_ln\<rparr>))"

fun draw_lines ::
  "nat \<Rightarrow> colour_prims \<Rightarrow> SpriteData \<Rightarrow> BlitterParams \<Rightarrow> BlitterMode \<Rightarrow> draw_state
     \<Rightarrow> draw_state option" where
  "draw_lines 0 P sp bp mode s = Some s"
| "draw_lines (Suc k) P sp bp mode s =
     (case draw_line P sp bp mode s of
        None \<Rightarrow> None
      | Some s' \<Rightarrow> draw_lines k P sp bp mode s')"

text \<open>\<open>for (uint i = bp->skip_top; i != 0; i--)\<close> (lines 106 to 109).\<close>

fun skip_top_loop :: "nat \<Rightarrow> SpriteData \<Rightarrow> nat \<times> nat \<Rightarrow> nat \<times> nat" where
  "skip_top_loop 0 sp c = c"
| "skip_top_loop (Suc i) sp (spx, sn) =
     skip_top_loop i sp (next_px_line sp spx, next_n_line sp sn)"

subsection \<open>Draw\<close>

text \<open>
  The template \<open>Draw<mode>(bp, zoom)\<close>.  The outer option is \<open>None\<close> when a line's loop
  does not return.
\<close>

definition Draw_mode ::
  "colour_prims \<Rightarrow> BlitterMode \<Rightarrow> BlitterParams \<Rightarrow> nat \<Rightarrow> Screen \<Rightarrow> (error + Screen) option" where
  "Draw_mode P mode bp zoom S =
     (let sp = bp_sprite bp;
          (spx, sn) = skip_top_loop (to_uint (bp_skip_top bp)) sp
                        (offset sp 0 zoom div 4, offset sp 1 zoom div 2);
          d = bp_dst bp + bp_top bp * bp_pitch bp + bp_left bp
      in case anim_buf S of
           None \<Rightarrow> Some (Inl AssertionFailed)
         | Some am \<Rightarrow>
             (let an = (bp_dst bp - dst_ptr S) + bp_top bp * bp_pitch bp + bp_left bp;
                  s0 = \<lparr>ds_vmem = vmem S, ds_anim = am, dst = d, anim = an,
                        src_px = spx, src_n = sn, dst_end = d\<rparr>
              in (case draw_lines (nat (bp_height bp)) P sp bp mode s0 of
                    None \<Rightarrow> None
                  | Some s \<Rightarrow>
                      Some (Inr (S\<lparr>vmem := ds_vmem s, anim_buf := Some (ds_anim s)\<rparr>)))))"

text \<open>\<open>Draw(bp, mode, zoom)\<close> (lines 330 to 349).\<close>

definition Draw ::
  "colour_prims \<Rightarrow> Blitter_32bppOptimized \<Rightarrow> BlitterParams \<Rightarrow> BlitterMode \<Rightarrow> nat \<Rightarrow> Screen
     \<Rightarrow> (error + Screen) option" where
  "Draw P parent bp mode zoom S =
     (if dst_ptr S = 0 then Some (Inl AssertionFailed)
      else if screen_disable_anim S \<or> anim_buf S = None then
        (case parent_Draw parent bp mode zoom (vmem S) of
           None \<Rightarrow> None
         | Some (Inl e) \<Rightarrow> Some (Inl e)
         | Some (Inr vm) \<Rightarrow> Some (Inr (S\<lparr>vmem := vm\<rparr>)))
      else if mode = Normal then Draw_mode P Normal bp zoom S
      else if mode = ColourRemap then Draw_mode P ColourRemap bp zoom S
      else if mode = Transparent then Draw_mode P Transparent bp zoom S
      else if mode = TransparentRemap then Draw_mode P TransparentRemap bp zoom S
      else if mode = CrashRemap then Draw_mode P CrashRemap bp zoom S
      else if mode = BlackRemap then Draw_mode P BlackRemap bp zoom S
      else Some (Inl NotReached))"

text \<open>
  Modelled from the spec: \<open>Blitter_32bppOptimized::Draw\<close>, the non-animated parent
  blitter, which is not part of the sources at hand.  It is "a non-animated blitter using
  the same sprite format but writing only the colour buffer", whose "behavior must be
  pixel-identical to a hypothetical animated draw with all animation bytes forced to 0
  and viewed as static color": its colours are those the animated draw of the mode
  leaves in the colour memory \<open>vm\<close> of a screen whose animation bytes are all 0.
\<close>

definition Blitter_32bppOptimized_Draw ::
  "colour_prims \<Rightarrow> Screen \<Rightarrow> BlitterParams \<Rightarrow> BlitterMode \<Rightarrow> nat \<Rightarrow> (int \<Rightarrow> Colour)
     \<Rightarrow> (error + (int \<Rightarrow> Colour)) option" where
  "Blitter_32bppOptimized_Draw P S bp mode zoom vm =
     (let A = S\<lparr>screen_disable_anim := False, vmem := vm, anim_buf := Some (\<lambda>i. 0)\<rparr>
      in case (if mode \<in> {Normal, ColourRemap, Transparent, TransparentRemap, CrashRemap, BlackRemap}
               then Draw_mode P mode bp zoom A else Some (Inl NotReached)) of
           None \<Rightarrow> None
         | Some (Inl e) \<Rightarrow> Some (Inl e)
         | Some (Inr S') \<Rightarrow> Some (Inr (vmem S')))"

subsection \<open>Encoded sprites: the vocabulary of the statements about Draw\<close>

text \<open>
  What follows is not code of the blitter: it describes the sprite data \<open>Draw\<close> expects
  (the format written by the encoder, which is not part of the sources at hand, and read
  back by the loops above), so that statements about \<open>Draw\<close> can speak of "the pixel of
  the sprite at column x of line y".

  A line is a sequence of runs.  A fully transparent run of \<open>n\<close> pixels is stored as the
  count \<open>n\<close> and one placeholder cell in the 16-bit view, and one placeholder pixel (with
  \<open>a = 0\<close>) in the pixel view.  Any other run is stored as its count followed by one
  cell per pixel in the 16-bit view, and one pixel per pixel in the pixel view.
\<close>

datatype sprite_run =
  Transparent_run nat Colour u16
| Pixel_run "(Colour \<times> u16) list"

fun run_length :: "sprite_run \<Rightarrow> nat" where
  "run_length (Transparent_run n c e) = n"
| "run_length (Pixel_run ps) = length ps"

fun run_px_cells :: "sprite_run \<Rightarrow> u32 list" where
  "run_px_cells (Transparent_run n c e) = [c]"
| "run_px_cells (Pixel_run ps) = map fst ps"

fun run_n_cells :: "sprite_run \<Rightarrow> u16 list" where
  "run_n_cells (Transparent_run n c e) = [of_nat n, e]"
| "run_n_cells (Pixel_run ps) = of_nat (length ps) # map snd ps"

text \<open>The pixels of a run, one per column; \<open>None\<close> is a fully transparent column.\<close>

fun run_pixels :: "sprite_run \<Rightarrow> (Colour \<times> u16) option list" where
  "run_pixels (Transparent_run n c e) = replicate n None"
| "run_pixels (Pixel_run ps) = map Some ps"

definition line_pixels :: "sprite_run list \<Rightarrow> (Colour \<times> u16) option list" where
  "line_pixels rs = concat (map run_pixels rs)"

definition line_px_cells :: "sprite_run list \<Rightarrow> u32 list" where
  "line_px_cells rs = concat (map run_px_cells rs)"

definition line_n_cells :: "sprite_run list \<Rightarrow> u16 list" where
  "line_n_cells rs = concat (map run_n_cells rs)"

text \<open>
  A run is well formed when it is not empty, its count fits the 16-bit cell, and its
  pixels are of one alpha class: a transparent run's placeholder has \<open>a = 0\<close>, and the
  pixels of any other run are either all opaque (\<open>a = 255\<close>) or all translucent.
\<close>

fun wf_run :: "sprite_run \<Rightarrow> bool" where
  "wf_run (Transparent_run n c e) = (0 < n \<and> n < 2 ^ 16 \<and> Colour_a c = 0)"
| "wf_run (Pixel_run ps) =
     (ps \<noteq> [] \<and> length ps < 2 ^ 16 \<and>
      (list_all (\<lambda>p. Colour_a (fst p) = 255) ps \<or>
       list_all (\<lambda>p. Colour_a (fst p) \<noteq> 255 \<and> Colour_a (fst p) \<noteq> 0) ps))"

text \<open>
  A line as stored in the two views: the byte count of the stored line (its own four
  bytes included) and then the cells of the runs.
\<close>

definition enc_px_line :: "sprite_run list \<Rightarrow> u32 list" where
  "enc_px_line rs = of_nat (4 * (1 + length (line_px_cells rs))) # line_px_cells rs"

definition enc_n_line :: "sprite_run list \<Rightarrow> u16 list" where
  "enc_n_line rs =
     (let k = 2 * (2 + length (line_n_cells rs))
      in [of_nat (k mod 2 ^ 16), of_nat (k div 2 ^ 16)] @ line_n_cells rs)"

definition wf_line :: "nat \<Rightarrow> sprite_run list \<Rightarrow> bool" where
  "wf_line W rs =
     (list_all wf_run rs \<and> sum_list (map run_length rs) = W \<and>
      4 * (1 + length (line_px_cells rs)) < 2 ^ 32 \<and>
      2 * (2 + length (line_n_cells rs)) < 2 ^ 32)"

text \<open>The cells \<open>xs\<close> are what a view holds from cell \<open>base\<close> on.\<close>

definition cells_at :: "(nat \<Rightarrow> 'a) \<Rightarrow> nat \<Rightarrow> 'a list \<Rightarrow> bool" where
  "cells_at mem base xs = list_all (\<lambda>i. mem (base + i) = xs ! i) [0..<length xs]"

text \<open>
  The sprite \<open>sp\<close> holds, at zoom level \<open>zoom\<close>, the lines \<open>ls\<close>, each of them well
  formed and \<open>W\<close> pixels wide.
\<close>

definition sprite_holds :: "SpriteData \<Rightarrow> nat \<Rightarrow> nat \<Rightarrow> sprite_run list list \<Rightarrow> bool" where
  "sprite_holds sp zoom W ls =
     (list_all (wf_line W) ls \<and>
      cells_at (data_px sp) (offset sp 0 zoom div 4) (concat (map enc_px_line ls)) \<and>
      cells_at (data_n sp) (offset sp 1 zoom div 2) (concat (map enc_n_line ls)))"

text \<open>
  What \<open>Draw<mode>\<close> composes for one source pixel that is not fully transparent: the
  composition of the mode, for the alpha class of the pixel.
\<close>

definition compose_px :: "colour_prims \<Rightarrow> (u8 \<Rightarrow> u8) \<Rightarrow> BlitterMode \<Rightarrow> px_op" where
  "compose_px P remap mode px e da =
     (if mode = ColourRemap \<or> mode = CrashRemap then
        (if Colour_a px = 255 then px_remap_opaque P remap mode px e da
         else px_remap_blend P remap mode px e da)
      else if mode = BlackRemap then px_black px e da
      else if mode = Transparent then
        (if Colour_a px = 255 then px_transparent_opaque P px e da
         else px_transparent_blend P px e da)
      else if mode = TransparentRemap then px_transparent_remap P remap px e da
      else
        (if Colour_a px = 255 then px_normal_opaque px e da
         else px_normal_blend P px e da))"

text \<open>
  Painting a row of pixels from colour address \<open>d\<close> and animation index \<open>k\<close> on: each
  pixel is composed with \<open>f\<close> onto the contents of its own cell, and a fully transparent
  pixel leaves its cell alone.
\<close>

fun paint ::
  "px_op \<Rightarrow> int \<Rightarrow> int \<Rightarrow> (Colour \<times> u16) option list \<Rightarrow> (int \<Rightarrow> Colour) \<times> (int \<Rightarrow> u8)
     \<Rightarrow> (int \<Rightarrow> Colour) \<times> (int \<Rightarrow> u8)" where
  "paint f d k [] B = B"
| "paint f d k (None # ps) B = paint f (d + 1) (k + 1) ps B"
| "paint f d k (Some (px, e) # ps) (vm, am) =
     paint f (d + 1) (k + 1) ps
       (vm(d := fst (f px e (vm d, am k))), am(k := snd (f px e (vm d, am k))))"

text \<open>Painting rows one below the other, \<open>pitch\<close> cells apart.\<close>

fun paint_lines ::
  "px_op \<Rightarrow> int \<Rightarrow> int \<Rightarrow> int \<Rightarrow> (Colour \<times> u16) option list list
     \<Rightarrow> (int \<Rightarrow> Colour) \<times> (int \<Rightarrow> u8) \<Rightarrow> (int \<Rightarrow> Colour) \<times> (int \<Rightarrow> u8)" where
  "paint_lines f d k pitch [] B = B"
| "paint_lines f d k pitch (l # ls) B =
     paint_lines f (d + pitch) (k + pitch) pitch ls (paint f d k l B)"

text \<open>
  The state after painting a row at the cursors \<open>dst\<close> and \<open>anim\<close>, which come to
  stand behind the row.
\<close>

definition painted :: "px_op \<Rightarrow> (Colour \<times> u16) option list \<Rightarrow> draw_state \<Rightarrow> draw_state" where
  "painted f ps s =
     s\<lparr>ds_vmem := fst (paint f (dst s) (anim s) ps (ds_vmem s, ds_anim s)),
       ds_anim := snd (paint f (dst s) (anim s) ps (ds_vmem s, ds_anim s)),
       dst := dst s + int (length ps),
       anim := anim s + int (length ps)\<rparr>"

text \<open>
  The bounds a draw request keeps for a sprite \<open>W\<close> pixels wide and \<open>H\<close> lines high:
  the clipped part lies within the sprite and is not empty across; all of them are C
  \<open>int\<close>s.
\<close>

definition params_in_bounds :: "BlitterParams \<Rightarrow> nat \<Rightarrow> nat \<Rightarrow> bool" where
  "params_in_bounds bp W H =
     (0 \<le> bp_skip_left bp \<and> 0 \<le> bp_skip_top bp \<and> 0 < bp_width bp \<and> 0 \<le> bp_height bp \<and>
      bp_skip_left bp + bp_width bp \<le> int W \<and> bp_skip_top bp + bp_height bp \<le> int H \<and>
      int W < 2 ^ 31 \<and> int H < 2 ^ 31)"

text \<open>The part of a line a request draws: \<open>width\<close> pixels from column \<open>skip_left\<close> on.\<close>

definition clip_line :: "BlitterParams \<Rightarrow> sprite_run list \<Rightarrow> (Colour \<times> u16) option list" where
  "clip_line bp rs = take (nat (bp_width bp)) (drop (nat (bp_skip_left bp)) (line_pixels rs))"

text \<open>The lines a request draws: \<open>height\<close> lines from line \<open>skip_top\<close> on.\<close>

definition clip_lines :: "BlitterParams \<Rightarrow> sprite_run list list \<Rightarrow> (Colour \<times> u16) option list list" where
  "clip_lines bp ls = map (clip_line bp) (take (nat (bp_height bp)) (drop (nat (bp_skip_top bp)) ls))"

text \<open>
  Composing one pixel of a line onto the contents of a cell; a fully transparent pixel
  leaves them as they are.
\<close>

definition compose_at :: "px_op \<Rightarrow> (Colour \<times> u16) option \<Rightarrow> Colour \<times> u8 \<Rightarrow> Colour \<times> u8" where
  "compose_at f p da = (case p of None \<Rightarrow> da | Some (px, e) \<Rightarrow> f px e da)"

text \<open>
  The buffers after the lines \<open>ls\<close> of a sprite are painted as the request \<open>bp\<close> asks,
  in mode \<open>mode\<close>, onto the buffers \<open>B\<close>; \<open>dp\<close> is \<open>_screen.dst_ptr\<close>.
\<close>

definition drawn ::
  "colour_prims \<Rightarrow> BlitterMode \<Rightarrow> BlitterParams \<Rightarrow> sprite_run list list \<Rightarrow> int
     \<Rightarrow> (int \<Rightarrow> Colour) \<times> (int \<Rightarrow> u8) \<Rightarrow> (int \<Rightarrow> Colour) \<times> (int \<Rightarrow> u8)" where
  "drawn P mode bp ls dp B =
     paint_lines (compose_px P (bp_remap bp) mode)
       (bp_dst bp + bp_top bp * bp_pitch bp + bp_left bp)
       ((bp_dst bp - dp) + bp_top bp * bp_pitch bp + bp_left bp)
       (bp_pitch bp) (clip_lines bp ls) B"

text \<open>The pixel of the sprite at column \<open>c\<close> of line \<open>r\<close>.\<close>

definition sprite_pixel :: "sprite_run list list \<Rightarrow> nat \<Rightarrow> nat \<Rightarrow> (Colour \<times> u16) option" where
  "sprite_pixel ls r c = line_pixels (ls ! r) ! c"

text \<open>
  The address in the colour memory of column \<open>x\<close> of line \<open>y\<close> of the rectangle a
  request draws.
\<close>

definition pixel_address :: "BlitterParams \<Rightarrow> nat \<Rightarrow> nat \<Rightarrow> int" where
  "pixel_address bp y x = bp_dst bp + (bp_top bp + int y) * bp_pitch bp + bp_left bp + int x"

text \<open>
  The request that draws the whole sprite (\<open>W\<close> by \<open>H\<close>), with no skips, placed so
  that the part \<open>bp\<close> draws falls on the same cells.
\<close>

definition unclipped :: "BlitterParams \<Rightarrow> nat \<Rightarrow> nat \<Rightarrow> BlitterParams" where
  "unclipped bp W H =
     bp\<lparr>bp_skip_left := 0, bp_skip_top := 0, bp_width := int W, bp_height := int H,
        bp_left := bp_left bp - bp_skip_left bp, bp_top := bp_top bp - bp_skip_top bp\<rparr>"

text \<open>Reading a cell of each buffer out of the result of a draw.\<close>

definition colour_after :: "(error + Screen) option \<Rightarrow> int \<Rightarrow> Colour option" where
  "colour_after r q = (case r of Some (Inr S') \<Rightarrow> Some (vmem S' q) | _ \<Rightarrow> None)"

definition anim_after :: "(error + Screen) option \<Rightarrow> int \<Rightarrow> u8 option" where
  "anim_after r i =
     (case r of
        Some (Inr S') \<Rightarrow> (case anim_buf S' of Some am \<Rightarrow> Some (am i) | None \<Rightarrow> None)
      | _ \<Rightarrow> None)"

text \<open>The two buffers of a state.\<close>

definition bufs :: "draw_state \<Rightarrow> (int \<Rightarrow> Colour) \<times> (int \<Rightarrow> u8)" where
  "bufs s = (ds_vmem s, ds_anim s)"

subsection \<open>A small sprite and a screen, for concrete instances\<close>

text \<open>A view that holds the cells \<open>xs\<close> from cell \<open>0\<close> on, and zeros after them.\<close>

definition stream_of :: "'a::zero list \<Rightarrow> nat \<Rightarrow> 'a" where
  "stream_of xs i = (if i < length xs then xs ! i else 0)"

text \<open>
  Simple stand-ins for the colour primitives: the palette maps index \<open>i\<close> to the grey
  \<open>(i, i, i)\<close>, blending averages the channels, darkening halves them.
\<close>

definition ex_palette :: "u8 \<Rightarrow> Colour" where
  "ex_palette i = mk_Colour i i i 0xFF"

definition ex_blend :: "u8 \<Rightarrow> u8 \<Rightarrow> u8 \<Rightarrow> u8 \<Rightarrow> Colour \<Rightarrow> Colour" where
  "ex_blend r g b a cur =
     mk_Colour (drop_bit 1 r + drop_bit 1 (Colour_r cur)) (drop_bit 1 g + drop_bit 1 (Colour_g cur))
       (drop_bit 1 b + drop_bit 1 (Colour_b cur)) 0xFF"

definition ex_prims :: colour_prims where
  "ex_prims =
     \<lparr>MakeDark = (\<lambda>c. mk_Colour (drop_bit 1 (Colour_r c)) (drop_bit 1 (Colour_g c))
                         (drop_bit 1 (Colour_b c)) (Colour_a c)),
      RealizeBlendedColour = (\<lambda>a c. if a = 0 then c else ex_palette a),
      ComposeColourRGBANoCheck = ex_blend,
      ComposeColourPANoCheck = (\<lambda>c a cur. ex_blend (Colour_r c) (Colour_g c) (Colour_b c) a cur),
      LookupColourInPalette = ex_palette,
      MakeTransparent = (\<lambda>c nom denom. mk_Colour (drop_bit 1 (Colour_r c)) (drop_bit 1 (Colour_g c))
                         (drop_bit 1 (Colour_b c)) 0xFF),
      GetColourBrightness = Colour_r,
      GetNearestColourIndex = Colour_b\<rparr>"

definition ex_parent :: Blitter_32bppOptimized where
  "ex_parent =
     \<lparr>parent_SetPixel = (\<lambda>video x y colour vm. vm(video + x + y * 10 := ex_palette (colour_p colour))),
      parent_DrawRect = (\<lambda>video width height colour vm. vm),
      parent_Draw = (\<lambda>bp mode zoom vm. Some (Inr (vm(bp_dst bp := 0xFF123456))))\<rparr>"

text \<open>
  A sprite of two lines, four pixels wide.  Line 0: one transparent pixel, two opaque
  pixels of animation class 5, one translucent pixel (\<open>a = 0x80\<close>) of class 5.  Line 1:
  one opaque run of four pixels of class 5.
\<close>

definition ex_lines :: "sprite_run list list" where
  "ex_lines =
     [[Transparent_run 1 0 0,
       Pixel_run [(0xFFFF0000, 5), (0xFF00FF00, 5)],
       Pixel_run [(0x800000FF, 5)]],
      [Pixel_run [(0xFFFF0000, 5), (0xFF00FF00, 5), (0xFF0000FF, 5), (0xFFFFFF00, 5)]]]"

definition ex_sprite :: SpriteData where
  "ex_sprite =
     \<lparr>data_px = stream_of (concat (map enc_px_line ex_lines)),
      data_n = stream_of (concat (map enc_n_line ex_lines)),
      offset = (\<lambda>i zoom. 0)\<rparr>"

text \<open>
  A request for columns 1 to 3 of both lines, drawn at line 1, column 2 of a screen with
  pitch 10 that begins at address 1000; the remap table sends class 5 to 0.
\<close>

definition ex_bp :: BlitterParams where
  "ex_bp =
     \<lparr>bp_sprite = ex_sprite, bp_remap = (\<lambda>m. if m = 5 then 0 else m),
      bp_skip_left = 1, bp_skip_top = 0, bp_width = 3, bp_height = 2,
      bp_left = 2, bp_top = 1, bp_dst = 1000, bp_pitch = 10\<rparr>"

text \<open>The same request with no clipping on the left: all four columns.\<close>

definition ex_bp_full :: BlitterParams where
  "ex_bp_full = ex_bp\<lparr>bp_skip_left := 0, bp_width := 4\<rparr>"

definition ex_screen :: Screen where
  "ex_screen =
     \<lparr>screen_disable_anim = False, dst_ptr = 1000, s_width = 10, s_height = 10, s_pitch = 10,
      vmem = (\<lambda>q. 0xFF102030), anim_buf = Some (\<lambda>i. 9)\<rparr>"

text \<open>The example screen with a null animation buffer.\<close>

definition ex_screen_no_anim :: Screen where
  "ex_screen_no_anim = ex_screen\<lparr>anim_buf := None\<rparr>"

text \<open>
  A screen of one line of four pixels, whose colour cell at address \<open>q\<close> holds \<open>q\<close> and
  whose animation byte \<open>i\<close> holds \<open>10 + i\<close>.
\<close>

definition ex_scroll_screen :: Screen where
  "ex_scroll_screen =
     \<lparr>screen_disable_anim = False, dst_ptr = 1000, s_width = 4, s_height = 1, s_pitch = 4,
      vmem = (\<lambda>q. word_of_int q), anim_buf = Some (\<lambda>i. word_of_int (10 + i))\<rparr>"

section \<open>Properties\<close>

subsection \<open>Cells of a view\<close>

lemma cells_at_iff: "cells_at mem base xs \<longleftrightarrow> (\<forall>i<length xs. mem (base + i) = xs ! i)"
  by (auto simp: cells_at_def list_all_iff)

lemma cells_at_append:
  "cells_at mem base (xs @ ys) \<longleftrightarrow> cells_at mem base xs \<and> cells_at mem (base + length xs) ys"
proof
  assume h: "cells_at mem base (xs @ ys)"
  have a: "cells_at mem base xs"
    unfolding cells_at_iff
  proof (intro allI impI)
    fix i assume "i < length xs"
    with h show "mem (base + i) = xs ! i"
      by (auto simp: cells_at_iff nth_append dest: spec [where x = i])
  qed
  have b: "cells_at mem (base + length xs) ys"
    unfolding cells_at_iff
  proof (intro allI impI)
    fix i assume "i < length ys"
    with h show "mem (base + length xs + i) = ys ! i"
      by (auto simp: cells_at_iff nth_append add.assoc dest: spec [where x = "length xs + i"])
  qed
  from a b show "cells_at mem base xs \<and> cells_at mem (base + length xs) ys" ..
next
  assume h: "cells_at mem base xs \<and> cells_at mem (base + length xs) ys"
  show "cells_at mem base (xs @ ys)"
    unfolding cells_at_iff
  proof (intro allI impI)
    fix i assume i: "i < length (xs @ ys)"
    show "mem (base + i) = (xs @ ys) ! i"
    proof (cases "i < length xs")
      case True
      with h show ?thesis by (simp add: cells_at_iff nth_append)
    next
      case False
      then have "i = length xs + (i - length xs)" by simp
      moreover from False i have "i - length xs < length ys" by simp
      ultimately show ?thesis using h False
        by (metis cells_at_iff nth_append add.assoc)
    qed
  qed
qed

lemma cells_at_Cons:
  "cells_at mem base (x # xs) \<longleftrightarrow> mem base = x \<and> cells_at mem (Suc base) xs"
  using cells_at_append [of mem base "[x]" xs] by (simp add: cells_at_iff)

lemma cells_at_Nil: "cells_at mem base []"
  by (simp add: cells_at_iff)

lemma cells_at_drop:
  "cells_at mem base xs \<Longrightarrow> k \<le> length xs \<Longrightarrow> cells_at mem (base + k) (drop k xs)"
  using cells_at_append [of mem base "take k xs" "drop k xs"] by (simp add: min_absorb2)

lemma cells_at_take:
  "cells_at mem base xs \<Longrightarrow> cells_at mem base (take k xs)"
  using cells_at_append [of mem base "take k xs" "drop k xs"] by simp

lemma paint_append:
  "paint f d k (xs @ ys) B = paint f (d + int (length xs)) (k + int (length xs)) ys (paint f d k xs B)"
proof (induction xs arbitrary: d k B)
  case Nil
  then show ?case by simp
next
  case (Cons x xs)
  obtain vm am where B: "B = (vm, am)" by (cases B)
  show ?case
  proof (cases x)
    case None
    then show ?thesis using Cons.IH [of "d + 1" "k + 1" B] by (simp add: add.assoc)
  next
    case (Some pe)
    obtain px e where pe: "pe = (px, e)" by (cases pe)
    show ?thesis using Cons.IH [of "d + 1" "k + 1"] by (simp add: Some pe B add.assoc)
  qed
qed

lemma paint_replicate_None: "paint f d k (replicate n None) B = B"
  by (induction n arbitrary: d k) simp_all

lemma repeat_px_step:
  assumes "\<forall>i<length ps.
      f (data_px sp (src_px s + (if apx then i else 0))) (data_n sp (src_n s + (if an then i else 0)))
        = g (fst (ps ! i)) (snd (ps ! i))"
  shows "repeat (length ps) (px_step f apx an sp) s =
           (painted g (map Some ps) s)
             \<lparr>src_px := src_px s + (if apx then length ps else 0),
              src_n := src_n s + (if an then length ps else 0)\<rparr>"
  using assms
proof (induction ps arbitrary: s)
  case Nil
  then show ?case by (simp add: painted_def)
next
  case (Cons p ps)
  obtain px e where p: "p = (px, e)" by (cases p)
  let ?s1 = "px_step f apx an sp s"
  from Cons.prems have h0: "f (data_px sp (src_px s)) (data_n sp (src_n s)) = g px e"
    by (auto simp: p dest: spec [where x = 0])
  have h1: "\<forall>i<length ps.
      f (data_px sp (src_px ?s1 + (if apx then i else 0))) (data_n sp (src_n ?s1 + (if an then i else 0)))
        = g (fst (ps ! i)) (snd (ps ! i))"
  proof (intro allI impI)
    fix i assume "i < length ps"
    then have "Suc i < length (p # ps)" by simp
    with Cons.prems have "f (data_px sp (src_px s + (if apx then Suc i else 0)))
        (data_n sp (src_n s + (if an then Suc i else 0))) = g (fst ((p # ps) ! Suc i)) (snd ((p # ps) ! Suc i))"
      by blast
    then show "f (data_px sp (src_px ?s1 + (if apx then i else 0))) (data_n sp (src_n ?s1 + (if an then i else 0)))
        = g (fst (ps ! i)) (snd (ps ! i))"
      by (cases apx; cases an) (simp_all add: px_step_def Let_def)
  qed
  show ?case
    using Cons.IH [OF h1] h0
    by (simp add: painted_def px_step_def Let_def p)
qed

lemma do_while_px_step:
  assumes n: "0 < n" "n \<le> length seg"
    and eq: "\<And>i. i < n \<Longrightarrow>
      f (data_px sp (src_px s + (if apx then i else 0))) (data_n sp (src_n s + (if an then i else 0)))
        = g (fst (seg ! i)) (snd (seg ! i))"
  shows "do_while n (px_step f apx an sp) s =
           (painted g (map Some (take n seg)) s)
             \<lparr>src_px := src_px s + (if apx then n else 0),
              src_n := src_n s + (if an then n else 0)\<rparr>"
proof -
  have len: "length (take n seg) = n" using n by simp
  have "\<forall>i<length (take n seg).
      f (data_px sp (src_px s + (if apx then i else 0))) (data_n sp (src_n s + (if an then i else 0)))
        = g (fst (take n seg ! i)) (snd (take n seg ! i))"
    using eq len by simp
  from repeat_px_step [OF this] show ?thesis
    using n by (simp add: do_while_def len)
qed

lemma modes_distinct:
  "Normal \<noteq> ColourRemap" "Normal \<noteq> Transparent" "Normal \<noteq> TransparentRemap"
  "Normal \<noteq> CrashRemap" "Normal \<noteq> BlackRemap"
  "ColourRemap \<noteq> Transparent" "ColourRemap \<noteq> TransparentRemap" "ColourRemap \<noteq> CrashRemap"
  "ColourRemap \<noteq> BlackRemap" "Transparent \<noteq> TransparentRemap" "Transparent \<noteq> CrashRemap"
  "Transparent \<noteq> BlackRemap" "TransparentRemap \<noteq> CrashRemap" "TransparentRemap \<noteq> BlackRemap"
  "CrashRemap \<noteq> BlackRemap"
  by (simp_all add: Normal_def ColourRemap_def Transparent_def TransparentRemap_def
      CrashRemap_def BlackRemap_def)

lemma painted_src_irrelevant:
  "painted g ps (s\<lparr>src_n := a\<rparr>) = (painted g ps s)\<lparr>src_n := a\<rparr>"
  "painted g ps (s\<lparr>src_px := b\<rparr>) = (painted g ps s)\<lparr>src_px := b\<rparr>"
  by (simp_all add: painted_def)

lemma draw_run_painted:
  assumes px: "cells_at (data_px sp) (src_px s) (map fst seg)"
    and nn: "cells_at (data_n sp) (src_n s) (map snd seg)"
    and cls: "list_all (\<lambda>p. Colour_a (fst p) = 255) seg \<or>
              list_all (\<lambda>p. Colour_a (fst p) \<noteq> 255 \<and> Colour_a (fst p) \<noteq> 0) seg"
    and n: "0 < n" "n \<le> length seg"
  shows "draw_run P sp remap mode n s =
           (painted (compose_px P remap mode) (map Some (take n seg)) s)
             \<lparr>src_px := src_px s + n, src_n := src_n s + n\<rparr>"
proof -
  have dpx: "\<And>i. i < n \<Longrightarrow> data_px sp (src_px s + i) = fst (seg ! i)"
    using px n by (simp add: cells_at_iff)
  have dn: "\<And>i. i < n \<Longrightarrow> data_n sp (src_n s + i) = snd (seg ! i)"
    using nn n by (simp add: cells_at_iff)
  have first: "data_px sp (src_px s) = fst (seg ! 0)"
    using dpx [of 0] n by simp
  have nz: "\<And>i. i < n \<Longrightarrow> Colour_a (fst (seg ! i)) \<noteq> 0"
    using cls n by (auto simp: list_all_length)
  show ?thesis
  proof (cases "Colour_a (fst (seg ! 0)) = 255")
    case True
    from n have l0: "0 < length seg" by linarith
    have "\<not> list_all (\<lambda>p. Colour_a (fst p) \<noteq> 255 \<and> Colour_a (fst p) \<noteq> 0) seg"
      using True l0 by (auto simp: list_all_length)
    with cls n have op: "\<And>i. i < n \<Longrightarrow> Colour_a (fst (seg ! i)) = 255"
      by (auto simp: list_all_length)
    consider (remap) "mode = ColourRemap \<or> mode = CrashRemap"
      | (black) "mode = BlackRemap"
      | (transp) "mode = Transparent"
      | (tremap) "mode = TransparentRemap"
      | (normal) "mode \<noteq> ColourRemap" "mode \<noteq> CrashRemap" "mode \<noteq> BlackRemap"
                 "mode \<noteq> Transparent" "mode \<noteq> TransparentRemap"
      by blast
    then show ?thesis
    proof cases
      case remap
      have "do_while n (px_step (px_remap_opaque P remap mode) True True sp) s =
           (painted (compose_px P remap mode) (map Some (take n seg)) s)
             \<lparr>src_px := src_px s + (if True then n else 0), src_n := src_n s + (if True then n else 0)\<rparr>"
        by (rule do_while_px_step [OF n]) (use remap op dpx dn in \<open>auto simp: compose_px_def fun_eq_iff\<close>)
      then show ?thesis using remap True first by (auto simp: draw_run_def)
    next
      case black
      have "do_while n (px_step px_black True True sp) s =
           (painted (compose_px P remap mode) (map Some (take n seg)) s)
             \<lparr>src_px := src_px s + (if True then n else 0), src_n := src_n s + (if True then n else 0)\<rparr>"
        by (rule do_while_px_step [OF n])
           (use black op dpx dn modes_distinct in \<open>auto simp: compose_px_def fun_eq_iff\<close>)
      then show ?thesis using black True first modes_distinct by (auto simp: draw_run_def)
    next
      case transp
      let ?s' = "s\<lparr>src_n := src_n s + n, src_px := src_px s + n\<rparr>"
      have "do_while n (px_step (px_transparent_opaque P) False False sp) ?s' =
           (painted (compose_px P remap mode) (map Some (take n seg)) ?s')
             \<lparr>src_px := src_px ?s' + (if False then n else 0), src_n := src_n ?s' + (if False then n else 0)\<rparr>"
        by (rule do_while_px_step [OF n])
           (use transp op modes_distinct in \<open>auto simp: compose_px_def fun_eq_iff px_transparent_opaque_def\<close>)
      then show ?thesis using transp True first modes_distinct
        by (auto simp: draw_run_def painted_def)
    next
      case tremap
      let ?s' = "s\<lparr>src_n := src_n s + n, src_px := src_px s + n\<rparr>"
      have "do_while n (px_step (px_transparent_remap P remap) False False sp) ?s' =
           (painted (compose_px P remap mode) (map Some (take n seg)) ?s')
             \<lparr>src_px := src_px ?s' + (if False then n else 0), src_n := src_n ?s' + (if False then n else 0)\<rparr>"
        by (rule do_while_px_step [OF n])
           (use tremap op modes_distinct in \<open>auto simp: compose_px_def fun_eq_iff px_transparent_remap_def\<close>)
      then show ?thesis using tremap True first modes_distinct
        by (auto simp: draw_run_def painted_def)
    next
      case normal
      have "do_while n (px_step px_normal_opaque True True sp) s =
           (painted (compose_px P remap mode) (map Some (take n seg)) s)
             \<lparr>src_px := src_px s + (if True then n else 0), src_n := src_n s + (if True then n else 0)\<rparr>"
        by (rule do_while_px_step [OF n])
           (use normal op dpx dn in \<open>auto simp: compose_px_def fun_eq_iff\<close>)
      then show ?thesis using normal True first by (auto simp: draw_run_def)
    qed
  next
    case False
    from n have l0: "0 < length seg" by linarith
    have "\<not> list_all (\<lambda>p. Colour_a (fst p) = 255) seg"
      using False l0 by (auto simp: list_all_length)
    with cls n have tr: "\<And>i. i < n \<Longrightarrow> Colour_a (fst (seg ! i)) \<noteq> 255"
      by (auto simp: list_all_length)
    consider (remap) "mode = ColourRemap \<or> mode = CrashRemap"
      | (black) "mode = BlackRemap"
      | (transp) "mode = Transparent"
      | (tremap) "mode = TransparentRemap"
      | (normal) "mode \<noteq> ColourRemap" "mode \<noteq> CrashRemap" "mode \<noteq> BlackRemap"
                 "mode \<noteq> Transparent" "mode \<noteq> TransparentRemap"
      by blast
    then show ?thesis
    proof cases
      case remap
      have "do_while n (px_step (px_remap_blend P remap mode) True True sp) s =
           (painted (compose_px P remap mode) (map Some (take n seg)) s)
             \<lparr>src_px := src_px s + (if True then n else 0), src_n := src_n s + (if True then n else 0)\<rparr>"
        by (rule do_while_px_step [OF n]) (use remap tr dpx dn in \<open>auto simp: compose_px_def fun_eq_iff\<close>)
      then show ?thesis using remap False first by (auto simp: draw_run_def)
    next
      case black
      have "do_while n (px_step px_black True True sp) s =
           (painted (compose_px P remap mode) (map Some (take n seg)) s)
             \<lparr>src_px := src_px s + (if True then n else 0), src_n := src_n s + (if True then n else 0)\<rparr>"
        by (rule do_while_px_step [OF n])
           (use black tr dpx dn modes_distinct in \<open>auto simp: compose_px_def fun_eq_iff\<close>)
      then show ?thesis using black False first modes_distinct by (auto simp: draw_run_def)
    next
      case transp
      let ?s' = "s\<lparr>src_n := src_n s + n\<rparr>"
      have "do_while n (px_step (px_transparent_blend P) True False sp) ?s' =
           (painted (compose_px P remap mode) (map Some (take n seg)) ?s')
             \<lparr>src_px := src_px ?s' + (if True then n else 0), src_n := src_n ?s' + (if False then n else 0)\<rparr>"
        by (rule do_while_px_step [OF n])
           (use transp tr dpx modes_distinct in \<open>auto simp: compose_px_def fun_eq_iff px_transparent_blend_def\<close>)
      then show ?thesis using transp False first modes_distinct
        by (auto simp: draw_run_def painted_def)
    next
      case tremap
      let ?s' = "s\<lparr>src_n := src_n s + n, src_px := src_px s + n\<rparr>"
      have "do_while n (px_step (px_transparent_remap P remap) False False sp) ?s' =
           (painted (compose_px P remap mode) (map Some (take n seg)) ?s')
             \<lparr>src_px := src_px ?s' + (if False then n else 0), src_n := src_n ?s' + (if False then n else 0)\<rparr>"
        by (rule do_while_px_step [OF n])
           (use tremap tr modes_distinct in \<open>auto simp: compose_px_def fun_eq_iff px_transparent_remap_def\<close>)
      then show ?thesis using tremap False first modes_distinct nz [of 0] n
        by (auto simp: draw_run_def painted_def)
    next
      case normal
      have "do_while n (px_step (px_normal_blend P) True True sp) s =
           (painted (compose_px P remap mode) (map Some (take n seg)) s)
             \<lparr>src_px := src_px s + (if True then n else 0), src_n := src_n s + (if True then n else 0)\<rparr>"
        by (rule do_while_px_step [OF n])
           (use normal tr dpx dn in \<open>auto simp: compose_px_def fun_eq_iff\<close>)
      then show ?thesis using normal False first by (auto simp: draw_run_def)
    qed
  qed
qed

subsection \<open>The second loop of a line paints the pixels of the runs it reads\<close>

lemma bufs_painted: "bufs (painted f ps s) = paint f (dst s) (anim s) ps (bufs s)"
  by (simp add: bufs_def painted_def)

lemma bufs_update [simp]:
  "bufs (s\<lparr>src_px := a\<rparr>) = bufs s"
  "bufs (s\<lparr>src_n := b\<rparr>) = bufs s"
  "bufs (s\<lparr>dst := c\<rparr>) = bufs s"
  "bufs (s\<lparr>anim := d\<rparr>) = bufs s"
  "bufs (s\<lparr>dst_end := e\<rparr>) = bufs s"
  by (simp_all add: bufs_def)

lemma to_uint_nat: "0 \<le> i \<Longrightarrow> i < 2 ^ 32 \<Longrightarrow> to_uint i = nat i"
  by (simp add: to_uint_def)

lemma paint_take_transparent:
  "paint f d k (take r (replicate len None @ X)) B =
     paint f (d + int (min len r)) (k + int (min len r)) (take (r - min len r) X) B"
proof -
  have "take r (replicate len None @ X) = replicate (min len r) None @ take (r - min len r) X"
    by (cases "len \<le> r") (simp_all add: min_def)
  then show ?thesis
    by (simp add: paint_append paint_replicate_None)
qed

lemma paint_take_pixels:
  "paint f d k (take r (map Some ps @ X)) B =
     paint f (d + int (min (length ps) r)) (k + int (min (length ps) r))
       (take (r - min (length ps) r) X) (paint f d k (map Some (take (min (length ps) r) ps)) B)"
proof -
  have "take r (map Some ps @ X) =
          map Some (take (min (length ps) r) ps) @ take (r - min (length ps) r) X"
    by (cases "length ps \<le> r") (simp_all add: min_def take_map)
  then show ?thesis
    by (simp add: paint_append)
qed


lemma unat_u16_of_nat: "n < 2 ^ 16 \<Longrightarrow> unat (of_nat n :: u16) = n"
  by (simp add: unat_of_nat)

lemma draw_loop_exit:
  "\<not> dst s < dst_end s \<Longrightarrow> draw_loop P sp remap mode None s = Some s"
  by (subst draw_loop.simps) simp

lemma draw_loop_painted:
  assumes "list_all wf_run rs"
    and "dst s < dst_end s \<Longrightarrow>
           cells_at (data_px sp) (src_px s) (line_px_cells rs) \<and>
           cells_at (data_n sp) (src_n s) (line_n_cells rs)"
    and "dst_end s - dst s \<le> int (sum_list (map run_length rs))"
    and "dst_end s - dst s < 2 ^ 32"
  shows "\<exists>s'. draw_loop P sp remap mode None s = Some s' \<and>
              bufs s' = paint (compose_px P remap mode) (dst s) (anim s)
                          (take (nat (dst_end s - dst s)) (line_pixels rs)) (bufs s)"
  using assms
proof (induction rs arbitrary: s)
  case Nil
  then have "\<not> dst s < dst_end s" by simp
  then show ?case by (simp add: draw_loop_exit line_pixels_def)
next
  case (Cons run rs)
  let ?f = "compose_px P remap mode"
  show ?case
  proof (cases "dst s < dst_end s")
    case False
    then show ?thesis by (simp add: draw_loop_exit)
  next
    case True
    define r where "r = nat (dst_end s - dst s)"
    have r0: "0 < r" and rint: "int r = dst_end s - dst s" using True by (simp_all add: r_def)
    have tu: "to_uint (dst_end s - dst s) = r"
      using True Cons.prems(4) by (simp add: to_uint_nat r_def)
    from Cons.prems(2) [OF True]
    have cpx: "cells_at (data_px sp) (src_px s) (run_px_cells run @ line_px_cells rs)"
      and cn: "cells_at (data_n sp) (src_n s) (run_n_cells run @ line_n_cells rs)"
      by (simp_all add: line_px_cells_def line_n_cells_def)
    from Cons.prems(1) have wfr: "wf_run run" and wfrs: "list_all wf_run rs" by simp_all
    show ?thesis
    proof (cases run)
      case (Transparent_run len c e)
      define n where "n = min len r"
      define s1 where "s1 = s\<lparr>anim := anim s + int n, dst := dst s + int n,
                               src_px := src_px s + 1, src_n := src_n s + 2\<rparr>"
      from wfr have len: "0 < len" "len < 2 ^ 16" and a0: "Colour_a c = 0"
        by (simp_all add: Transparent_run)
      from cpx have d0: "data_px sp (src_px s) = c"
        and cpx': "cells_at (data_px sp) (src_px s + 1) (line_px_cells rs)"
        by (simp_all add: Transparent_run cells_at_Cons)
      from cn have dn0: "data_n sp (src_n s) = of_nat len"
        and cn': "cells_at (data_n sp) (src_n s + 2) (line_n_cells rs)"
        by (simp_all add: Transparent_run cells_at_Cons)
      have un: "unat (of_nat len :: u16) = len" using len by (simp add: unat_of_nat)
      have step: "draw_loop P sp remap mode None s = draw_loop P sp remap mode None s1"
        by (subst draw_loop.simps)
           (simp add: True d0 dn0 a0 tu un n_def s1_def Let_def)
      have ih: "\<exists>s'. draw_loop P sp remap mode None s1 = Some s' \<and>
              bufs s' = paint ?f (dst s1) (anim s1)
                          (take (nat (dst_end s1 - dst s1)) (line_pixels rs)) (bufs s1)"
      proof (rule Cons.IH [OF wfrs])
        show "cells_at (data_px sp) (src_px s1) (line_px_cells rs) \<and>
              cells_at (data_n sp) (src_n s1) (line_n_cells rs)"
          using cpx' cn' by (simp add: s1_def)
        show "dst_end s1 - dst s1 \<le> int (sum_list (map run_length rs))"
          using Cons.prems(3) rint by (simp add: s1_def n_def Transparent_run min_def)
        show "dst_end s1 - dst s1 < 2 ^ 32"
          using Cons.prems(4) by (simp add: s1_def)
      qed
      have rest: "nat (dst_end s1 - dst s1) = r - n"
        using rint by (simp add: s1_def n_def min_def)
      have "paint ?f (dst s) (anim s) (take r (line_pixels (run # rs))) (bufs s) =
            paint ?f (dst s1) (anim s1) (take (r - n) (line_pixels rs)) (bufs s1)"
        using paint_take_transparent [of ?f "dst s" "anim s" r len "line_pixels rs" "bufs s"]
        by (simp add: line_pixels_def Transparent_run n_def s1_def)
      with ih step rest show ?thesis by (simp add: r_def)
    next
      case (Pixel_run ps)
      define n where "n = min (length ps) r"
      define s0 where "s0 = s\<lparr>src_n := src_n s + 1\<rparr>"
      define s1 where "s1 = (painted ?f (map Some (take n ps)) s0)
                              \<lparr>src_px := src_px s0 + n, src_n := src_n s0 + n\<rparr>"
      from wfr have ne: "ps \<noteq> []" and len: "length ps < 2 ^ 16"
        and cls: "list_all (\<lambda>p. Colour_a (fst p) = 255) ps \<or>
                  list_all (\<lambda>p. Colour_a (fst p) \<noteq> 255 \<and> Colour_a (fst p) \<noteq> 0) ps"
        by (simp_all add: Pixel_run)
      have n0: "0 < n" "n \<le> length ps" using ne r0 by (simp_all add: n_def)
      from cpx have cps: "cells_at (data_px sp) (src_px s) (map fst ps)"
        and cpx': "cells_at (data_px sp) (src_px s + length ps) (line_px_cells rs)"
        by (simp_all add: Pixel_run cells_at_append)
      from cn have dn0: "data_n sp (src_n s) = of_nat (length ps)"
        and cns: "cells_at (data_n sp) (src_n s + 1) (map snd ps)"
        and cn': "cells_at (data_n sp) (src_n s + 1 + length ps) (line_n_cells rs)"
        by (simp_all add: Pixel_run cells_at_Cons cells_at_append)
      from ne have l0: "0 < length ps" by simp
      have "data_px sp (src_px s + 0) = fst (ps ! 0)"
        using cps l0 unfolding cells_at_iff by (metis length_map nth_map)
      then have "data_px sp (src_px s) = fst (ps ! 0)" by simp
      moreover have "Colour_a (fst (ps ! 0)) \<noteq> 0"
        using cls l0 by (auto simp: list_all_length)
      ultimately have a0: "Colour_a (data_px sp (src_px s)) \<noteq> 0" by simp
      have run: "draw_run P sp remap mode n s0 = s1"
        unfolding s1_def
        by (rule draw_run_painted [OF _ _ cls n0]) (use cps cns in \<open>simp_all add: s0_def\<close>)
      have un: "unat (of_nat (length ps) :: u16) = length ps"
        using len by (simp add: unat_of_nat)
      have run': "draw_run P sp remap mode n (s\<lparr>src_n := Suc (src_n s)\<rparr>) = s1"
        using run by (simp add: s0_def)
      have step: "draw_loop P sp remap mode None s = draw_loop P sp remap mode None s1"
        by (subst draw_loop.simps)
           (simp add: True dn0 a0 tu un n_def [symmetric] Let_def run')
      have d1: "dst s1 = dst s + int n" "anim s1 = anim s + int n" "dst_end s1 = dst_end s"
        "src_px s1 = src_px s + n" "src_n s1 = src_n s + 1 + n"
        using n0 by (simp_all add: s1_def s0_def painted_def)
      have b1: "bufs s1 = paint ?f (dst s) (anim s) (map Some (take n ps)) (bufs s)"
        by (simp add: s1_def bufs_painted s0_def)
      have ih: "\<exists>s'. draw_loop P sp remap mode None s1 = Some s' \<and>
              bufs s' = paint ?f (dst s1) (anim s1)
                          (take (nat (dst_end s1 - dst s1)) (line_pixels rs)) (bufs s1)"
      proof (rule Cons.IH [OF wfrs])
        assume "dst s1 < dst_end s1"
        then have "n < r" using rint by (simp add: d1)
        then have "n = length ps" by (simp add: n_def min_def split: if_splits)
        then show "cells_at (data_px sp) (src_px s1) (line_px_cells rs) \<and>
              cells_at (data_n sp) (src_n s1) (line_n_cells rs)"
          using cpx' cn' by (simp add: d1)
      next
        show "dst_end s1 - dst s1 \<le> int (sum_list (map run_length rs))"
          using Cons.prems(3) rint by (simp add: d1 n_def Pixel_run min_def)
        show "dst_end s1 - dst s1 < 2 ^ 32"
          using Cons.prems(4) by (simp add: d1)
      qed
      have rest: "nat (dst_end s1 - dst s1) = r - n"
        using rint by (simp add: d1)
      have "paint ?f (dst s) (anim s) (take r (line_pixels (run # rs))) (bufs s) =
            paint ?f (dst s1) (anim s1) (take (r - n) (line_pixels rs)) (bufs s1)"
        using paint_take_pixels [of ?f "dst s" "anim s" r ps "line_pixels rs" "bufs s"]
        by (simp add: line_pixels_def Pixel_run n_def [symmetric] d1 b1)
      with ih step rest show ?thesis by (simp add: r_def)
    qed
  qed
qed

subsection \<open>The two loops of a line paint the clipped part of the line\<close>

lemma skip_left_loop_exit:
  "\<not> dst s < dst_end s \<Longrightarrow> skip_left_loop sp bp s = Some (s, None)"
  by (subst skip_left_loop.simps) simp

lemma line_loops_cong:
  "skip_left_loop sp bp s = skip_left_loop sp bp s1 \<Longrightarrow>
   line_loops P sp bp mode s = line_loops P sp bp mode s1"
  by (simp add: line_loops_def)

lemma draw_loop_pending:
  "draw_loop P sp remap mode (Some n) s = draw_loop P sp remap mode None (draw_run P sp remap mode n s)"
  by (subst draw_loop.simps) simp

lemma sub_uint_nat: "b \<le> a \<Longrightarrow> a < 2 ^ 32 \<Longrightarrow> sub_uint a b = a - b"
  by (simp add: sub_uint_def nat_diff_distrib' of_nat_diff flip: of_nat_diff)

lemma line_loops_painted:
  assumes "list_all wf_run rs"
    and "cells_at (data_px sp) (src_px s) (line_px_cells rs)"
    and "cells_at (data_n sp) (src_n s) (line_n_cells rs)"
    and "dst s \<le> dst_end s"
    and "dst_end s - dst s < 2 ^ 32"
    and "dst_end s - dst s + bp_width bp \<le> int (sum_list (map run_length rs))"
    and w: "0 < bp_width bp" "bp_width bp < 2 ^ 32"
  shows "\<exists>s'. line_loops P sp bp mode s = Some s' \<and>
              bufs s' = paint (compose_px P (bp_remap bp) mode) (dst_end s - bp_skip_left bp) (anim s)
                          (take (nat (bp_width bp)) (drop (nat (dst_end s - dst s)) (line_pixels rs)))
                          (bufs s)"
  using assms(1-6)
proof (induction rs arbitrary: s)
  case Nil
  then show ?case using w by simp
next
  case (Cons run rs)
  let ?f = "compose_px P (bp_remap bp) mode"
  let ?D = "dst_end s - bp_skip_left bp"
  define wn where "wn = nat (bp_width bp)"
  have wn: "int wn = bp_width bp" "0 < wn" using w by (simp_all add: wn_def)
  have tuw: "to_uint (bp_width bp) = wn" using w by (simp add: to_uint_nat wn_def)
  show ?case
  proof (cases "dst s < dst_end s")
    case False
    with Cons.prems(4) have eq: "dst s = dst_end s" by simp
    define s2 where "s2 = s\<lparr>dst := dst s - bp_skip_left bp,
                             dst_end := dst_end s - bp_skip_left bp + bp_width bp\<rparr>"
    have ll: "line_loops P sp bp mode s = draw_loop P sp (bp_remap bp) mode None s2"
      using False by (simp add: line_loops_def skip_left_loop_exit s2_def)
    have "\<exists>s'. draw_loop P sp (bp_remap bp) mode None s2 = Some s' \<and>
              bufs s' = paint ?f (dst s2) (anim s2)
                          (take (nat (dst_end s2 - dst s2)) (line_pixels (run # rs))) (bufs s2)"
    proof (rule draw_loop_painted [OF Cons.prems(1)])
      show "cells_at (data_px sp) (src_px s2) (line_px_cells (run # rs)) \<and>
            cells_at (data_n sp) (src_n s2) (line_n_cells (run # rs))"
        using Cons.prems(2,3) by (simp add: s2_def)
      show "dst_end s2 - dst s2 \<le> int (sum_list (map run_length (run # rs)))"
        using Cons.prems(6) eq by (simp add: s2_def)
      show "dst_end s2 - dst s2 < 2 ^ 32" using w eq by (simp add: s2_def)
    qed
    then show ?thesis
      using ll eq by (simp add: s2_def wn_def)
  next
    case True
    define j where "j = nat (dst_end s - dst s)"
    have j0: "0 < j" and jint: "int j = dst_end s - dst s" using True by (simp_all add: j_def)
    have tu: "to_uint (dst_end s - dst s) = j"
      using True Cons.prems(5) by (simp add: to_uint_nat j_def)
    from Cons.prems(2)
    have cpx: "cells_at (data_px sp) (src_px s) (run_px_cells run @ line_px_cells rs)"
      by (simp add: line_px_cells_def)
    from Cons.prems(3)
    have cn: "cells_at (data_n sp) (src_n s) (run_n_cells run @ line_n_cells rs)"
      by (simp add: line_n_cells_def)
    from Cons.prems(1) have wfr: "wf_run run" and wfrs: "list_all wf_run rs" by simp_all
    show ?thesis
    proof (cases run)
      case (Transparent_run len c e)
      from wfr have len: "0 < len" "len < 2 ^ 16" and a0: "Colour_a c = 0"
        by (simp_all add: Transparent_run)
      have un: "unat (of_nat len :: u16) = len" using len by (simp add: unat_of_nat)
      from cpx have d0: "data_px sp (src_px s) = c"
        and cpx': "cells_at (data_px sp) (src_px s + 1) (line_px_cells rs)"
        by (simp_all add: Transparent_run cells_at_Cons)
      from cn have dn0: "data_n sp (src_n s) = of_nat len"
        and cn': "cells_at (data_n sp) (src_n s + 2) (line_n_cells rs)"
        by (simp_all add: Transparent_run cells_at_Cons)
      show ?thesis
      proof (cases "len \<le> j")
        case le: True
        define s1 where "s1 = s\<lparr>dst := dst s + int len, src_px := src_px s + 1, src_n := src_n s + 2\<rparr>"
        have "skip_left_loop sp bp s = skip_left_loop sp bp s1"
          using le jint
          by (subst skip_left_loop.simps) (simp add: True d0 dn0 a0 un s1_def Let_def)
        then have ll: "line_loops P sp bp mode s = line_loops P sp bp mode s1"
          by (rule line_loops_cong)
        have ih: "\<exists>s'. line_loops P sp bp mode s1 = Some s' \<and>
              bufs s' = paint ?f (dst_end s1 - bp_skip_left bp) (anim s1)
                 (take (nat (bp_width bp)) (drop (nat (dst_end s1 - dst s1)) (line_pixels rs)))
                 (bufs s1)"
        proof (rule Cons.IH [OF wfrs])
          show "cells_at (data_px sp) (src_px s1) (line_px_cells rs)" using cpx' by (simp add: s1_def)
          show "cells_at (data_n sp) (src_n s1) (line_n_cells rs)" using cn' by (simp add: s1_def)
          show "dst s1 \<le> dst_end s1" using le jint by (simp add: s1_def)
          show "dst_end s1 - dst s1 < 2 ^ 32" using Cons.prems(5) by (simp add: s1_def)
          show "dst_end s1 - dst s1 + bp_width bp \<le> int (sum_list (map run_length rs))"
            using Cons.prems(6) by (simp add: s1_def Transparent_run)
        qed
        have "nat (dst_end s1 - dst s1) = j - len" using jint by (simp add: s1_def)
        moreover have "drop j (line_pixels (run # rs)) = drop (j - len) (line_pixels rs)"
          using le by (simp add: line_pixels_def Transparent_run)
        ultimately show ?thesis using ih ll by (simp add: s1_def j_def)
      next
        case gt: False
        define ov where "ov = len - j"
        have ov: "0 < ov" "int ov = int len - int j" using gt by (simp_all add: ov_def)
        define s1 where "s1 = s\<lparr>dst := dst s + int len, src_px := src_px s + 1, src_n := src_n s + 2,
                                  anim := anim s + (dst s + int len - dst_end s)\<rparr>"
        have "skip_left_loop sp bp s = skip_left_loop sp bp s1"
          using gt jint ov
          by (subst skip_left_loop.simps) (simp add: True d0 dn0 a0 un s1_def Let_def)
        moreover have "\<not> dst s1 < dst_end s1" using gt jint by (simp add: s1_def)
        ultimately have sk: "skip_left_loop sp bp s = Some (s1, None)"
          by (simp add: skip_left_loop_exit)
        define s2 where "s2 = s1\<lparr>dst := dst s1 - bp_skip_left bp,
                             dst_end := dst_end s1 - bp_skip_left bp + bp_width bp\<rparr>"
        have ll: "line_loops P sp bp mode s = draw_loop P sp (bp_remap bp) mode None s2"
          using sk by (simp add: line_loops_def s2_def)
        have d2: "dst s2 = ?D + int ov" "dst_end s2 = ?D + int wn" "anim s2 = anim s + int ov"
          "bufs s2 = bufs s" "src_px s2 = src_px s + 1" "src_n s2 = src_n s + 2"
          using jint ov wn by (simp_all add: s2_def s1_def)
        have dl: "\<exists>s'. draw_loop P sp (bp_remap bp) mode None s2 = Some s' \<and>
              bufs s' = paint ?f (dst s2) (anim s2)
                          (take (nat (dst_end s2 - dst s2)) (line_pixels rs)) (bufs s2)"
        proof (rule draw_loop_painted [OF wfrs])
          show "cells_at (data_px sp) (src_px s2) (line_px_cells rs) \<and>
                cells_at (data_n sp) (src_n s2) (line_n_cells rs)"
            using cpx' cn' by (simp add: d2)
          show "dst_end s2 - dst s2 \<le> int (sum_list (map run_length rs))"
            using Cons.prems(6) jint ov wn by (simp add: d2 Transparent_run)
          show "dst_end s2 - dst s2 < 2 ^ 32" using w wn by (simp add: d2)
        qed
        have dr: "drop j (line_pixels (run # rs)) = replicate ov None @ line_pixels rs"
          using gt by (simp add: line_pixels_def Transparent_run ov_def)
        have "paint ?f ?D (anim s) (take wn (drop j (line_pixels (run # rs)))) (bufs s) =
              paint ?f (?D + int (min ov wn)) (anim s + int (min ov wn))
                (take (wn - min ov wn) (line_pixels rs)) (bufs s)"
          unfolding dr by (rule paint_take_transparent)
        also have "\<dots> = paint ?f (dst s2) (anim s2)
                          (take (nat (dst_end s2 - dst s2)) (line_pixels rs)) (bufs s2)"
        proof (cases "ov \<le> wn")
          case True
          then show ?thesis by (simp add: d2 min_def nat_diff_distrib')
        next
          case False
          then show ?thesis by (simp add: d2 min_def)
        qed
        finally show ?thesis using dl ll by (simp add: wn_def j_def)
      qed
    next
      case (Pixel_run ps)
      from wfr have ne: "ps \<noteq> []" and len: "length ps < 2 ^ 16"
        and cls: "list_all (\<lambda>p. Colour_a (fst p) = 255) ps \<or>
                  list_all (\<lambda>p. Colour_a (fst p) \<noteq> 255 \<and> Colour_a (fst p) \<noteq> 0) ps"
        by (simp_all add: Pixel_run)
      have un: "unat (of_nat (length ps) :: u16) = length ps"
        using len by (simp add: unat_of_nat)
      from cpx have cps: "cells_at (data_px sp) (src_px s) (map fst ps)"
        and cpx': "cells_at (data_px sp) (src_px s + length ps) (line_px_cells rs)"
        by (simp_all add: Pixel_run cells_at_append)
      from cn have dn0: "data_n sp (src_n s) = of_nat (length ps)"
        and cns: "cells_at (data_n sp) (src_n s + 1) (map snd ps)"
        and cn': "cells_at (data_n sp) (src_n s + 1 + length ps) (line_n_cells rs)"
        by (simp_all add: Pixel_run cells_at_Cons cells_at_append)
      from ne have l0: "0 < length ps" by simp
      have "data_px sp (src_px s + 0) = fst (ps ! 0)"
        using cps l0 unfolding cells_at_iff by (metis length_map nth_map)
      then have "data_px sp (src_px s) = fst (ps ! 0)" by simp
      moreover have "Colour_a (fst (ps ! 0)) \<noteq> 0"
        using cls l0 by (auto simp: list_all_length)
      ultimately have a0: "Colour_a (data_px sp (src_px s)) \<noteq> 0" by simp
      show ?thesis
      proof (cases "length ps \<le> j")
        case le: True
        define s1 where "s1 = s\<lparr>dst := dst s + int (length ps), src_px := src_px s + length ps,
                                  src_n := src_n s + 1 + length ps\<rparr>"
        have "skip_left_loop sp bp s = skip_left_loop sp bp s1"
          using le jint
          by (subst skip_left_loop.simps) (simp add: True dn0 a0 un s1_def Let_def)
        then have ll: "line_loops P sp bp mode s = line_loops P sp bp mode s1"
          by (rule line_loops_cong)
        have ih: "\<exists>s'. line_loops P sp bp mode s1 = Some s' \<and>
              bufs s' = paint ?f (dst_end s1 - bp_skip_left bp) (anim s1)
                 (take (nat (bp_width bp)) (drop (nat (dst_end s1 - dst s1)) (line_pixels rs)))
                 (bufs s1)"
        proof (rule Cons.IH [OF wfrs])
          show "cells_at (data_px sp) (src_px s1) (line_px_cells rs)" using cpx' by (simp add: s1_def)
          show "cells_at (data_n sp) (src_n s1) (line_n_cells rs)" using cn' by (simp add: s1_def)
          show "dst s1 \<le> dst_end s1" using le jint by (simp add: s1_def)
          show "dst_end s1 - dst s1 < 2 ^ 32" using Cons.prems(5) by (simp add: s1_def)
          show "dst_end s1 - dst s1 + bp_width bp \<le> int (sum_list (map run_length rs))"
            using Cons.prems(6) by (simp add: s1_def Pixel_run)
        qed
        have "nat (dst_end s1 - dst s1) = j - length ps" using jint by (simp add: s1_def)
        moreover have "drop j (line_pixels (run # rs)) = drop (j - length ps) (line_pixels rs)"
          using le by (simp add: line_pixels_def Pixel_run)
        ultimately show ?thesis using ih ll by (simp add: s1_def j_def)
      next
        case gt: False
        define n where "n = min (length ps - j) wn"
        have n0: "0 < n" "n \<le> length (drop j ps)" using gt wn by (simp_all add: n_def)
        define s1 where "s1 = s\<lparr>src_n := src_n s + 1 + j, src_px := src_px s + j,
                                  dst := ?D, dst_end := ?D + bp_width bp\<rparr>"
        have su: "sub_uint (length ps) j = length ps - j"
          using gt len by (simp add: sub_uint_nat)
        have sk: "skip_left_loop sp bp s = Some (s1, Some n)"
          using gt jint
          by (subst skip_left_loop.simps)
             (simp add: True dn0 a0 un tu tuw su s1_def n_def Let_def)
        have ll: "line_loops P sp bp mode s =
                    draw_loop P sp (bp_remap bp) mode None (draw_run P sp (bp_remap bp) mode n s1)"
          using sk by (simp add: line_loops_def draw_loop_pending)
        define s2 where "s2 = (painted ?f (map Some (take n (drop j ps))) s1)
                                \<lparr>src_px := src_px s1 + n, src_n := src_n s1 + n\<rparr>"
        have run: "draw_run P sp (bp_remap bp) mode n s1 = s2"
          unfolding s2_def
        proof (rule draw_run_painted [OF _ _ _ n0])
          show "cells_at (data_px sp) (src_px s1) (map fst (drop j ps))"
            using cells_at_drop [OF cps, of j] gt by (simp add: s1_def drop_map)
          show "cells_at (data_n sp) (src_n s1) (map snd (drop j ps))"
            using cells_at_drop [OF cns, of j] gt by (simp add: s1_def drop_map add.assoc)
          show "list_all (\<lambda>p. Colour_a (fst p) = 255) (drop j ps) \<or>
                list_all (\<lambda>p. Colour_a (fst p) \<noteq> 255 \<and> Colour_a (fst p) \<noteq> 0) (drop j ps)"
            using cls by (auto simp: list_all_iff dest: in_set_dropD)
        qed
        have d2: "dst s2 = ?D + int n" "dst_end s2 = ?D + int wn" "anim s2 = anim s + int n"
          "src_px s2 = src_px s + j + n" "src_n s2 = src_n s + 1 + j + n"
          using n0 wn by (simp_all add: s2_def s1_def painted_def)
        have b2: "bufs s2 = paint ?f ?D (anim s) (map Some (take n (drop j ps))) (bufs s)"
          by (simp add: s2_def bufs_painted s1_def)
        have dl: "\<exists>s'. draw_loop P sp (bp_remap bp) mode None s2 = Some s' \<and>
              bufs s' = paint ?f (dst s2) (anim s2)
                          (take (nat (dst_end s2 - dst s2)) (line_pixels rs)) (bufs s2)"
        proof (rule draw_loop_painted [OF wfrs])
          assume "dst s2 < dst_end s2"
          then have "n < wn" by (simp add: d2)
          then have "n = length ps - j" by (simp add: n_def min_def split: if_splits)
          then have "j + n = length ps" using gt by simp
          then show "cells_at (data_px sp) (src_px s2) (line_px_cells rs) \<and>
                cells_at (data_n sp) (src_n s2) (line_n_cells rs)"
            using cpx' cn' by (simp add: d2 add.assoc)
        next
          show "dst_end s2 - dst s2 \<le> int (sum_list (map run_length rs))"
            using Cons.prems(6) jint wn gt by (simp add: d2 Pixel_run n_def min_def)
          show "dst_end s2 - dst s2 < 2 ^ 32" using w wn by (simp add: d2)
        qed
        have dr: "drop j (line_pixels (run # rs)) = map Some (drop j ps) @ line_pixels rs"
          using gt by (simp add: line_pixels_def Pixel_run drop_map)
        have "paint ?f ?D (anim s) (take wn (drop j (line_pixels (run # rs)))) (bufs s) =
              paint ?f (?D + int n) (anim s + int n) (take (wn - n) (line_pixels rs))
                (paint ?f ?D (anim s) (map Some (take n (drop j ps))) (bufs s))"
          unfolding dr
          using paint_take_pixels [of ?f ?D "anim s" wn "drop j ps" "line_pixels rs" "bufs s"]
          by (simp add: n_def)
        also have "\<dots> = paint ?f (dst s2) (anim s2)
                          (take (nat (dst_end s2 - dst s2)) (line_pixels rs)) (bufs s2)"
          using n0 by (simp add: d2 b2 nat_diff_distrib')
        finally show ?thesis using dl ll run by (simp add: wn_def j_def)
      qed
    qed
  qed
qed

subsection \<open>Lines, and the lines skipped at the top\<close>

lemma length_enc_px_line: "length (enc_px_line rs) = 1 + length (line_px_cells rs)"
  by (simp add: enc_px_line_def)

lemma length_enc_n_line: "length (enc_n_line rs) = 2 + length (line_n_cells rs)"
  by (simp add: enc_n_line_def Let_def)

lemma next_px_line_enc:
  assumes "cells_at (data_px sp) c (enc_px_line rs)"
    and "4 * (1 + length (line_px_cells rs)) < (2::nat) ^ 32"
  shows "next_px_line sp c = c + length (enc_px_line rs)"
proof -
  from assms(1) have "data_px sp c = of_nat (4 * (1 + length (line_px_cells rs)))"
    by (simp add: enc_px_line_def cells_at_Cons)
  moreover have "unat (of_nat (4 * (1 + length (line_px_cells rs))) :: u32)
                   = 4 * (1 + length (line_px_cells rs))"
    by (subst unat_of_nat) (use assms(2) in simp)
  ultimately show ?thesis
    by (simp only: next_px_line_def length_enc_px_line) simp
qed

lemma next_n_line_enc:
  assumes "cells_at (data_n sp) c (enc_n_line rs)"
    and "2 * (2 + length (line_n_cells rs)) < (2::nat) ^ 32"
  shows "next_n_line sp c = c + length (enc_n_line rs)"
proof -
  define K where "K = 2 * (2 + length (line_n_cells rs))"
  from assms(1) have lo: "data_n sp c = of_nat (K mod 2 ^ 16)"
    and hi: "data_n sp (Suc c) = of_nat (K div 2 ^ 16)"
    by (simp_all add: enc_n_line_def cells_at_Cons cells_at_append Let_def K_def)
  have "K div 2 ^ 16 < 2 ^ 16" using assms(2) by (simp add: K_def)
  then have "unat (of_nat (K div 2 ^ 16) :: u16) = K div 2 ^ 16"
    by (subst unat_of_nat) simp
  moreover have "unat (of_nat (K mod 2 ^ 16) :: u16) = K mod 2 ^ 16"
    by (subst unat_of_nat) simp
  ultimately have "unat (data_n sp c) + 2 ^ 16 * unat (data_n sp (Suc c)) = K"
    by (simp only: lo hi) simp
  then show ?thesis
    by (simp add: next_n_line_def length_enc_n_line K_def)
qed

lemma draw_line_painted:
  assumes wf: "wf_line W rs"
    and cpx: "cells_at (data_px sp) (src_px s) (enc_px_line rs)"
    and cn: "cells_at (data_n sp) (src_n s) (enc_n_line rs)"
    and pb: "params_in_bounds bp W H"
  shows "\<exists>s'. draw_line P sp bp mode s = Some s' \<and>
              bufs s' = paint (compose_px P (bp_remap bp) mode) (dst s) (anim s) (clip_line bp rs) (bufs s) \<and>
              dst s' = dst s + bp_pitch bp \<and> anim s' = anim s + bp_pitch bp \<and>
              src_px s' = src_px s + length (enc_px_line rs) \<and>
              src_n s' = src_n s + length (enc_n_line rs)"
proof -
  define s1 where "s1 = s\<lparr>src_px := src_px s + 1, src_n := src_n s + 2,
                           dst_end := dst s + bp_skip_left bp\<rparr>"
  from wf have wfr: "list_all wf_run rs" and sum: "sum_list (map run_length rs) = W"
    and b1: "4 * (1 + length (line_px_cells rs)) < (2::nat) ^ 32"
    and b2: "2 * (2 + length (line_n_cells rs)) < (2::nat) ^ 32"
    by (simp_all add: wf_line_def)
  from pb have sl: "0 \<le> bp_skip_left bp" and w: "0 < bp_width bp"
    and fit: "bp_skip_left bp + bp_width bp \<le> int W" and W: "int W < 2 ^ 31"
    by (simp_all add: params_in_bounds_def)
  have "\<exists>s'. line_loops P sp bp mode s1 = Some s' \<and>
              bufs s' = paint (compose_px P (bp_remap bp) mode) (dst_end s1 - bp_skip_left bp) (anim s1)
                          (take (nat (bp_width bp)) (drop (nat (dst_end s1 - dst s1)) (line_pixels rs)))
                          (bufs s1)"
  proof (rule line_loops_painted [OF wfr])
    show "cells_at (data_px sp) (src_px s1) (line_px_cells rs)"
      using cpx by (simp add: s1_def enc_px_line_def cells_at_Cons)
    show "cells_at (data_n sp) (src_n s1) (line_n_cells rs)"
      using cn by (simp add: s1_def enc_n_line_def cells_at_Cons Let_def)
    show "dst s1 \<le> dst_end s1" using sl by (simp add: s1_def)
    show "dst_end s1 - dst s1 < 2 ^ 32" using fit w W by (simp add: s1_def)
    show "dst_end s1 - dst s1 + bp_width bp \<le> int (sum_list (map run_length rs))"
      using fit sum by (simp add: s1_def)
    show "0 < bp_width bp" by (rule w)
    show "bp_width bp < 2 ^ 32" using fit sl W by simp
  qed
  then obtain s' where ll: "line_loops P sp bp mode s1 = Some s'"
    and bs: "bufs s' = paint (compose_px P (bp_remap bp) mode) (dst s) (anim s) (clip_line bp rs) (bufs s)"
    by (auto simp: s1_def clip_line_def)
  have "draw_line P sp bp mode s =
          Some (s'\<lparr>dst := dst s + bp_pitch bp, anim := anim s + bp_pitch bp,
                   src_px := next_px_line sp (src_px s), src_n := next_n_line sp (src_n s)\<rparr>)"
    using ll by (simp add: draw_line_def Let_def s1_def)
  then show ?thesis
    using bs next_px_line_enc [OF cpx b1] next_n_line_enc [OF cn b2] by simp
qed

lemma draw_lines_painted:
  assumes "list_all (wf_line W) ls"
    and "cells_at (data_px sp) (src_px s) (concat (map enc_px_line ls))"
    and "cells_at (data_n sp) (src_n s) (concat (map enc_n_line ls))"
    and pb: "params_in_bounds bp W H"
  shows "\<exists>s'. draw_lines (length ls) P sp bp mode s = Some s' \<and>
              bufs s' = paint_lines (compose_px P (bp_remap bp) mode) (dst s) (anim s) (bp_pitch bp)
                          (map (clip_line bp) ls) (bufs s)"
  using assms(1-3)
proof (induction ls arbitrary: s)
  case Nil
  then show ?case by simp
next
  case (Cons rs ls)
  from Cons.prems have wf: "wf_line W rs" and wfs: "list_all (wf_line W) ls"
    and cpx: "cells_at (data_px sp) (src_px s) (enc_px_line rs)"
    and cpx': "cells_at (data_px sp) (src_px s + length (enc_px_line rs)) (concat (map enc_px_line ls))"
    and cn: "cells_at (data_n sp) (src_n s) (enc_n_line rs)"
    and cn': "cells_at (data_n sp) (src_n s + length (enc_n_line rs)) (concat (map enc_n_line ls))"
    by (simp_all add: cells_at_append)
  from draw_line_painted [OF wf cpx cn pb, of P mode]
  obtain s1 where dl: "draw_line P sp bp mode s = Some s1"
    and b1: "bufs s1 = paint (compose_px P (bp_remap bp) mode) (dst s) (anim s) (clip_line bp rs) (bufs s)"
    and c1: "dst s1 = dst s + bp_pitch bp" "anim s1 = anim s + bp_pitch bp"
      "src_px s1 = src_px s + length (enc_px_line rs)"
      "src_n s1 = src_n s + length (enc_n_line rs)"
    by blast
  from Cons.IH [OF wfs, of s1] cpx' cn'
  obtain s' where "draw_lines (length ls) P sp bp mode s1 = Some s'"
    and "bufs s' = paint_lines (compose_px P (bp_remap bp) mode) (dst s1) (anim s1) (bp_pitch bp)
                          (map (clip_line bp) ls) (bufs s1)"
    by (auto simp: c1)
  then show ?case using dl b1 c1 by simp
qed

lemma skip_top_loop_enc:
  assumes "list_all (wf_line W) ls"
    and "cells_at (data_px sp) c1 (concat (map enc_px_line ls))"
    and "cells_at (data_n sp) c2 (concat (map enc_n_line ls))"
  shows "skip_top_loop (length ls) sp (c1, c2) =
           (c1 + length (concat (map enc_px_line ls)), c2 + length (concat (map enc_n_line ls)))"
  using assms
proof (induction ls arbitrary: c1 c2)
  case Nil
  then show ?case by simp
next
  case (Cons rs ls)
  from Cons.prems have wf: "wf_line W rs" and wfs: "list_all (wf_line W) ls"
    and cpx: "cells_at (data_px sp) c1 (enc_px_line rs)"
    and cpx': "cells_at (data_px sp) (c1 + length (enc_px_line rs)) (concat (map enc_px_line ls))"
    and cn: "cells_at (data_n sp) c2 (enc_n_line rs)"
    and cn': "cells_at (data_n sp) (c2 + length (enc_n_line rs)) (concat (map enc_n_line ls))"
    by (simp_all add: cells_at_append)
  from wf have b1: "4 * (1 + length (line_px_cells rs)) < (2::nat) ^ 32"
    and b2: "2 * (2 + length (line_n_cells rs)) < (2::nat) ^ 32"
    by (simp_all add: wf_line_def)
  show ?case
    using Cons.IH [OF wfs cpx' cn'] next_px_line_enc [OF cpx b1] next_n_line_enc [OF cn b2]
    by simp
qed

subsection \<open>Draw paints the clipped lines of the sprite\<close>

lemma concat_take_drop:
  "concat (map g ls) = concat (map g (take k ls)) @ concat (map g (drop k ls))"
  by (metis append_take_drop_id concat_append map_append)

lemma Draw_mode_painted:
  assumes sh: "sprite_holds (bp_sprite bp) zoom W ls"
    and pb: "params_in_bounds bp W (length ls)"
    and ab: "anim_buf S = Some am"
  shows "Draw_mode P mode bp zoom S =
           Some (Inr (S\<lparr>vmem := fst (drawn P mode bp ls (dst_ptr S) (vmem S, am)),
                        anim_buf := Some (snd (drawn P mode bp ls (dst_ptr S) (vmem S, am)))\<rparr>))"
proof -
  define sp where "sp = bp_sprite bp"
  define k where "k = nat (bp_skip_top bp)"
  define h where "h = nat (bp_height bp)"
  define c1 where "c1 = offset sp 0 zoom div 4"
  define c2 where "c2 = offset sp 1 zoom div 2"
  define ls1 where "ls1 = take k ls"
  define ls2 where "ls2 = take h (drop k ls)"
  from sh have wf: "list_all (wf_line W) ls"
    and cpx: "cells_at (data_px sp) c1 (concat (map enc_px_line ls))"
    and cn: "cells_at (data_n sp) c2 (concat (map enc_n_line ls))"
    by (simp_all add: sprite_holds_def sp_def c1_def c2_def)
  from pb have st: "0 \<le> bp_skip_top bp" and hh: "0 \<le> bp_height bp"
    and sum: "bp_skip_top bp + bp_height bp \<le> int (length ls)"
    and lb: "int (length ls) < 2 ^ 31"
    by (simp_all add: params_in_bounds_def)
  from st hh sum have kh: "k + h \<le> length ls"
    unfolding k_def h_def by linarith
  from st hh sum lb have st2: "bp_skip_top bp < 2 ^ 32" by simp
  have tk: "to_uint (bp_skip_top bp) = length ls1"
    using st st2 kh by (simp add: to_uint_nat ls1_def k_def)
  have l2: "nat (bp_height bp) = length ls2" using kh by (simp add: ls2_def h_def)
  have wf1: "list_all (wf_line W) ls1" and wf2: "list_all (wf_line W) ls2"
    using wf by (auto simp: ls1_def ls2_def list_all_iff dest: in_set_takeD in_set_dropD)
  have split_px: "concat (map enc_px_line ls) =
      concat (map enc_px_line ls1) @ concat (map enc_px_line ls2) @ concat (map enc_px_line (drop h (drop k ls)))"
    unfolding ls1_def ls2_def
    using concat_take_drop [of enc_px_line ls k] concat_take_drop [of enc_px_line "drop k ls" h]
    by simp
  have split_n: "concat (map enc_n_line ls) =
      concat (map enc_n_line ls1) @ concat (map enc_n_line ls2) @ concat (map enc_n_line (drop h (drop k ls)))"
    unfolding ls1_def ls2_def
    using concat_take_drop [of enc_n_line ls k] concat_take_drop [of enc_n_line "drop k ls" h]
    by simp
  define e1 where "e1 = c1 + length (concat (map enc_px_line ls1))"
  define e2 where "e2 = c2 + length (concat (map enc_n_line ls1))"
  from cpx have cpx1: "cells_at (data_px sp) c1 (concat (map enc_px_line ls1))"
    and cpx2: "cells_at (data_px sp) e1 (concat (map enc_px_line ls2))"
    unfolding split_px cells_at_append e1_def by simp_all
  from cn have cn1: "cells_at (data_n sp) c2 (concat (map enc_n_line ls1))"
    and cn2: "cells_at (data_n sp) e2 (concat (map enc_n_line ls2))"
    unfolding split_n cells_at_append e2_def by simp_all
  have sk: "skip_top_loop (to_uint (bp_skip_top bp)) sp (c1, c2) = (e1, e2)"
    unfolding tk e1_def e2_def by (rule skip_top_loop_enc [OF wf1 cpx1 cn1])
  define d where "d = bp_dst bp + bp_top bp * bp_pitch bp + bp_left bp"
  define an where "an = (bp_dst bp - dst_ptr S) + bp_top bp * bp_pitch bp + bp_left bp"
  define s0 where "s0 = \<lparr>ds_vmem = vmem S, ds_anim = am, dst = d, anim = an,
                          src_px = e1, src_n = e2, dst_end = d\<rparr>"
  have "\<exists>s'. draw_lines (length ls2) P sp bp mode s0 = Some s' \<and>
              bufs s' = paint_lines (compose_px P (bp_remap bp) mode) (dst s0) (anim s0) (bp_pitch bp)
                          (map (clip_line bp) ls2) (bufs s0)"
    by (rule draw_lines_painted [OF wf2 _ _ pb]) (use cpx2 cn2 in \<open>simp_all add: s0_def\<close>)
  then obtain s' where dl': "draw_lines (length ls2) P sp bp mode s0 = Some s'"
    and bs': "bufs s' = paint_lines (compose_px P (bp_remap bp) mode) (dst s0) (anim s0) (bp_pitch bp)
                          (map (clip_line bp) ls2) (bufs s0)"
    by blast
  have e: "map (clip_line bp) ls2 = clip_lines bp ls"
    by (simp add: clip_lines_def ls2_def h_def k_def)
  have s0f: "dst s0 = d" "anim s0 = an" "bufs s0 = (vmem S, am)"
    by (simp_all add: s0_def bufs_def)
  have bs: "bufs s' = drawn P mode bp ls (dst_ptr S) (vmem S, am)"
    unfolding bs' e s0f drawn_def d_def an_def ..
  have dl: "draw_lines (nat (bp_height bp)) P sp bp mode s0 = Some s'"
    using dl' by (simp only: l2)
  from bs have "ds_vmem s' = fst (drawn P mode bp ls (dst_ptr S) (vmem S, am))"
    and "ds_anim s' = snd (drawn P mode bp ls (dst_ptr S) (vmem S, am))"
    by (metis bufs_def fst_conv, metis bufs_def snd_conv)
  then have fin: "S\<lparr>vmem := ds_vmem s', anim_buf := Some (ds_anim s')\<rparr> =
      S\<lparr>vmem := fst (drawn P mode bp ls (dst_ptr S) (vmem S, am)),
        anim_buf := Some (snd (drawn P mode bp ls (dst_ptr S) (vmem S, am)))\<rparr>"
    by simp
  show ?thesis
    using dl sk
    unfolding s0_def d_def an_def c1_def c2_def sp_def
    by (simp only: Draw_mode_def Let_def prod.case ab option.case fin)
qed

subsection \<open>Painting, cell by cell\<close>

lemma nat_minus_succ: "nat (x - (d + 1)) = nat (x - d) - Suc 0"
  by arith

lemma paint_at:
  "paint f d k ps (vm, am) =
     (\<lambda>q. if d \<le> q \<and> q < d + int (length ps)
           then fst (compose_at f (ps ! nat (q - d)) (vm q, am (q - d + k))) else vm q,
      \<lambda>i. if k \<le> i \<and> i < k + int (length ps)
           then snd (compose_at f (ps ! nat (i - k)) (vm (i - k + d), am i)) else am i)"
proof (induction ps arbitrary: d k vm am)
  case Nil
  then show ?case by (auto simp: fun_eq_iff)
next
  case (Cons p ps)
  have i1: "\<And>x. x + (k - d) = x - d + k" and i2: "\<And>x. x + (d - k) = x - k + d"
    and i3: "\<And>x. x - (d + 1) + (k + 1) = x - d + k" and i4: "\<And>x. x - (k + 1) + (d + 1) = x - k + d"
    by simp_all
  show ?case
  proof (cases p)
    case None
    show ?thesis
      unfolding None paint.simps Cons.IH
      by (rule prod_eqI; rule ext)
         (auto simp: compose_at_def nth_Cons' nat_minus_succ i1 i2 i3 i4 not_less)
  next
    case (Some pe)
    obtain px e where pe: "pe = (px, e)" by (cases pe)
    show ?thesis
      unfolding Some pe paint.simps Cons.IH
      by (rule prod_eqI; rule ext)
         (auto simp: compose_at_def nth_Cons' nat_minus_succ i1 i2 i3 i4 not_less)
  qed
qed

lemma paint_lines_below:
  assumes "0 \<le> pitch"
  shows "(q < d \<longrightarrow> fst (paint_lines f d k pitch Ls B) q = fst B q) \<and>
         (i < k \<longrightarrow> snd (paint_lines f d k pitch Ls B) i = snd B i)"
proof (induction Ls arbitrary: d k B)
  case Nil
  then show ?case by simp
next
  case (Cons l Ls)
  obtain vm am where B: "B = (vm, am)" by (cases B)
  have "q < d \<Longrightarrow> q < d + pitch" and "i < k \<Longrightarrow> i < k + pitch"
    using assms by simp_all
  with Cons.IH [of "d + pitch" "k + pitch" "paint f d k l B"] show ?case
    by (auto simp: B paint_at)
qed

lemma paint_lines_at:
  assumes "list_all (\<lambda>l. int (length l) \<le> pitch) Ls"
    and "y < length Ls" and "x < length (Ls ! y)"
  shows "fst (paint_lines f d k pitch Ls (vm, am)) (d + int y * pitch + int x) =
           fst (compose_at f (Ls ! y ! x) (vm (d + int y * pitch + int x), am (k + int y * pitch + int x)))
       \<and> snd (paint_lines f d k pitch Ls (vm, am)) (k + int y * pitch + int x) =
           snd (compose_at f (Ls ! y ! x) (vm (d + int y * pitch + int x), am (k + int y * pitch + int x)))"
  using assms
proof (induction Ls arbitrary: d k vm am y)
  case Nil
  then show ?case by simp
next
  case (Cons l Ls)
  have "int (length ((l # Ls) ! y)) \<le> pitch"
    using Cons.prems by (simp add: list_all_length)
  with Cons.prems(3) have p0: "0 < pitch" by linarith
  obtain vm' am' where P: "paint f d k l (vm, am) = (vm', am')"
    by (cases "paint f d k l (vm, am)")
  show ?case
  proof (cases y)
    case 0
    with Cons.prems have xl: "x < length l" by simp
    have lt: "d + int x < d + pitch" "k + int x < k + pitch"
      using Cons.prems(1) xl by simp_all
    have "fst (paint_lines f (d + pitch) (k + pitch) pitch Ls (paint f d k l (vm, am))) (d + int x)
              = fst (paint f d k l (vm, am)) (d + int x)"
      and "snd (paint_lines f (d + pitch) (k + pitch) pitch Ls (paint f d k l (vm, am))) (k + int x)
              = snd (paint f d k l (vm, am)) (k + int x)"
      using paint_lines_below [of pitch "d + int x" "d + pitch" f "k + pitch" Ls
          "paint f d k l (vm, am)" "k + int x"] p0 lt
      by simp_all
    then show ?thesis using xl by (simp add: 0 paint_at add.commute)
  next
    case (Suc y')
    from Cons.prems have la: "list_all (\<lambda>l. int (length l) \<le> pitch) Ls"
      and ll: "int (length l) \<le> pitch"
      and y': "y' < length Ls" and x': "x < length (Ls ! y')"
      by (simp_all add: Suc)
    have e1: "d + int y * pitch + int x = d + pitch + int y' * pitch + int x"
      and e2: "k + int y * pitch + int x = k + pitch + int y' * pitch + int x"
      by (simp_all add: Suc algebra_simps)
    have "0 \<le> int y' * pitch" using p0 by simp
    then have out: "\<not> (d + pitch + int y' * pitch + int x < d + int (length l))"
      "\<not> (k + pitch + int y' * pitch + int x < k + int (length l))"
      using ll by linarith+
    have "vm' (d + pitch + int y' * pitch + int x) = vm (d + pitch + int y' * pitch + int x)"
      and "am' (k + pitch + int y' * pitch + int x) = am (k + pitch + int y' * pitch + int x)"
      using P out by (auto simp: paint_at)
    moreover have nth: "(l # Ls) ! y = Ls ! y'" by (simp add: Suc)
    ultimately show ?thesis
      using Cons.IH [OF la y' x', of "d + pitch" "k + pitch" vm' am']
      unfolding e1 e2 nth paint_lines.simps P by simp
  qed
qed


lemma length_run_pixels: "length (run_pixels r) = run_length r"
  by (cases r) simp_all

lemma length_line_pixels: "length (line_pixels rs) = sum_list (map run_length rs)"
  by (induction rs) (simp_all add: line_pixels_def length_run_pixels)

lemma clip_lines_facts:
  assumes wf: "list_all (wf_line W) ls"
    and pb: "params_in_bounds bp W (length ls)"
  shows "length (clip_lines bp ls) = nat (bp_height bp)"
    and "int y < bp_height bp \<Longrightarrow> length (clip_lines bp ls ! y) = nat (bp_width bp)"
    and "int y < bp_height bp \<Longrightarrow> int x < bp_width bp \<Longrightarrow>
           clip_lines bp ls ! y ! x = sprite_pixel ls (nat (bp_skip_top bp) + y) (nat (bp_skip_left bp) + x)"
    and "list_all (\<lambda>l. int (length l) \<le> bp_width bp) (clip_lines bp ls)"
proof -
  from pb have st: "0 \<le> bp_skip_top bp" and hh: "0 \<le> bp_height bp"
    and sl: "0 \<le> bp_skip_left bp" and w: "0 < bp_width bp"
    and sumh: "bp_skip_top bp + bp_height bp \<le> int (length ls)"
    and sumw: "bp_skip_left bp + bp_width bp \<le> int W"
    by (simp_all add: params_in_bounds_def)
  from st hh sumh have kh: "nat (bp_skip_top bp) + nat (bp_height bp) \<le> length ls" by linarith
  from sl w sumw have jw: "nat (bp_skip_left bp) + nat (bp_width bp) \<le> W" by linarith
  show len: "length (clip_lines bp ls) = nat (bp_height bp)"
    using kh by (simp add: clip_lines_def)
  have row: "clip_lines bp ls ! y = clip_line bp (ls ! (nat (bp_skip_top bp) + y))"
    if "int y < bp_height bp" for y
    using that kh by (simp add: clip_lines_def)
  have lenW: "length (line_pixels (ls ! (nat (bp_skip_top bp) + y))) = W"
    if "int y < bp_height bp" for y
  proof -
    from that kh have "nat (bp_skip_top bp) + y < length ls" by linarith
    with wf have "wf_line W (ls ! (nat (bp_skip_top bp) + y))" by (simp add: list_all_length)
    then show ?thesis by (simp add: length_line_pixels wf_line_def)
  qed
  show "length (clip_lines bp ls ! y) = nat (bp_width bp)" if "int y < bp_height bp"
    using row [OF that] lenW [OF that] jw by (simp add: clip_line_def)
  show "clip_lines bp ls ! y ! x = sprite_pixel ls (nat (bp_skip_top bp) + y) (nat (bp_skip_left bp) + x)"
    if "int y < bp_height bp" "int x < bp_width bp"
  proof -
    from that(2) have "x < nat (bp_width bp)" by linarith
    moreover have "nat (bp_skip_left bp) + x < W" using that(2) jw by linarith
    ultimately show ?thesis
      using row [OF that(1)] lenW [OF that(1)] by (simp add: clip_line_def sprite_pixel_def)
  qed
  show "list_all (\<lambda>l. int (length l) \<le> bp_width bp) (clip_lines bp ls)"
    using w by (auto simp: list_all_iff clip_lines_def clip_line_def)
qed

lemma Draw_mode_pixel:
  assumes sh: "sprite_holds (bp_sprite bp) zoom W ls"
    and pb: "params_in_bounds bp W (length ls)"
    and ab: "anim_buf S = Some am"
    and wp: "bp_width bp \<le> bp_pitch bp"
    and y: "int y < bp_height bp" and x: "int x < bp_width bp"
  shows "\<exists>S1 am1. Draw_mode P mode bp zoom S = Some (Inr S1) \<and> anim_buf S1 = Some am1 \<and>
           (vmem S1 (pixel_address bp y x), am1 (pixel_address bp y x - dst_ptr S)) =
             compose_at (compose_px P (bp_remap bp) mode)
               (sprite_pixel ls (nat (bp_skip_top bp) + y) (nat (bp_skip_left bp) + x))
               (vmem S (pixel_address bp y x), am (pixel_address bp y x - dst_ptr S))"
proof -
  let ?f = "compose_px P (bp_remap bp) mode"
  let ?d = "bp_dst bp + bp_top bp * bp_pitch bp + bp_left bp"
  let ?k = "(bp_dst bp - dst_ptr S) + bp_top bp * bp_pitch bp + bp_left bp"
  let ?D = "drawn P mode bp ls (dst_ptr S) (vmem S, am)"
  from sh have wf: "list_all (wf_line W) ls" by (simp add: sprite_holds_def)
  note cf = clip_lines_facts [OF wf pb]
  have la: "list_all (\<lambda>l. int (length l) \<le> bp_pitch bp) (clip_lines bp ls)"
    using cf(4) wp by (auto simp: list_all_iff)
  have yl: "y < length (clip_lines bp ls)" using y by (simp add: cf(1))
  have xl: "x < length (clip_lines bp ls ! y)" using x by (simp add: cf(2) [OF y])
  have a1: "?d + int y * bp_pitch bp + int x = pixel_address bp y x"
    and a2: "?k + int y * bp_pitch bp + int x = pixel_address bp y x - dst_ptr S"
    by (simp_all add: pixel_address_def algebra_simps)
  from paint_lines_at [OF la yl xl, where f = ?f and d = ?d and k = ?k and vm = "vmem S" and am = am]
  have "fst ?D (pixel_address bp y x) =
          fst (compose_at ?f (sprite_pixel ls (nat (bp_skip_top bp) + y) (nat (bp_skip_left bp) + x))
                 (vmem S (pixel_address bp y x), am (pixel_address bp y x - dst_ptr S)))"
    and "snd ?D (pixel_address bp y x - dst_ptr S) =
          snd (compose_at ?f (sprite_pixel ls (nat (bp_skip_top bp) + y) (nat (bp_skip_left bp) + x))
                 (vmem S (pixel_address bp y x), am (pixel_address bp y x - dst_ptr S)))"
    unfolding a1 a2 cf(3) [OF y x] drawn_def by simp_all
  then show ?thesis
    using Draw_mode_painted [OF sh pb ab, of P mode] by (simp add: prod_eq_iff)
qed

subsection \<open>The example sprite is well formed\<close>

lemma cells_at_stream_of: "cells_at (stream_of xs) 0 xs"
  by (simp add: cells_at_iff stream_of_def)

lemma ex_sprite_holds: "sprite_holds ex_sprite 0 4 ex_lines"
  unfolding sprite_holds_def
  by (simp add: ex_sprite_def cells_at_stream_of)
     (simp add: ex_lines_def wf_line_def line_px_cells_def line_n_cells_def Colour_a_def)


lemma Draw_mode_cell:
  assumes sh: "sprite_holds (bp_sprite bp) zoom W ls"
    and pb: "params_in_bounds bp W (length ls)"
    and ab: "anim_buf S = Some am"
    and wp: "bp_width bp \<le> bp_pitch bp"
    and y: "int y < bp_height bp" and x: "int x < bp_width bp"
  shows "colour_after (Draw_mode P mode bp zoom S) (pixel_address bp y x) =
           Some (fst (compose_at (compose_px P (bp_remap bp) mode)
               (sprite_pixel ls (nat (bp_skip_top bp) + y) (nat (bp_skip_left bp) + x))
               (vmem S (pixel_address bp y x), am (pixel_address bp y x - dst_ptr S))))"
    and "anim_after (Draw_mode P mode bp zoom S) (pixel_address bp y x - dst_ptr S) =
           Some (snd (compose_at (compose_px P (bp_remap bp) mode)
               (sprite_pixel ls (nat (bp_skip_top bp) + y) (nat (bp_skip_left bp) + x))
               (vmem S (pixel_address bp y x), am (pixel_address bp y x - dst_ptr S))))"
proof -
  from Draw_mode_pixel [OF sh pb ab wp y x, of P mode]
  obtain S1 am1 where d: "Draw_mode P mode bp zoom S = Some (Inr S1)" and a: "anim_buf S1 = Some am1"
    and e: "(vmem S1 (pixel_address bp y x), am1 (pixel_address bp y x - dst_ptr S)) =
             compose_at (compose_px P (bp_remap bp) mode)
               (sprite_pixel ls (nat (bp_skip_top bp) + y) (nat (bp_skip_left bp) + x))
               (vmem S (pixel_address bp y x), am (pixel_address bp y x - dst_ptr S))"
    by blast
  from e [symmetric] show "colour_after (Draw_mode P mode bp zoom S) (pixel_address bp y x) =
           Some (fst (compose_at (compose_px P (bp_remap bp) mode)
               (sprite_pixel ls (nat (bp_skip_top bp) + y) (nat (bp_skip_left bp) + x))
               (vmem S (pixel_address bp y x), am (pixel_address bp y x - dst_ptr S))))"
    by (simp add: colour_after_def d)
  from e [symmetric] show "anim_after (Draw_mode P mode bp zoom S) (pixel_address bp y x - dst_ptr S) =
           Some (snd (compose_at (compose_px P (bp_remap bp) mode)
               (sprite_pixel ls (nat (bp_skip_top bp) + y) (nat (bp_skip_left bp) + x))
               (vmem S (pixel_address bp y x), am (pixel_address bp y x - dst_ptr S))))"
    by (simp add: anim_after_def d a)
qed

lemma ex_params: "params_in_bounds ex_bp 4 (length ex_lines)"
  "params_in_bounds ex_bp_full 4 (length ex_lines)"
  by (simp_all add: params_in_bounds_def ex_bp_def ex_bp_full_def ex_lines_def)

lemma ex_pixel_at:
  "sprite_pixel ex_lines (nat (bp_skip_top ex_bp_full) + 0) (nat (bp_skip_left ex_bp_full) + 0) = None"
  "sprite_pixel ex_lines (nat (bp_skip_top ex_bp) + 0) (nat (bp_skip_left ex_bp) + 2) = Some (0x800000FF, 5)"
  "sprite_pixel ex_lines (nat (bp_skip_top ex_bp_full) + 1) (nat (bp_skip_left ex_bp_full) + 0) = Some (0xFFFF0000, 5)"
  "sprite_pixel ex_lines (nat (bp_skip_top ex_bp_full) + 1) (nat (bp_skip_left ex_bp_full) + 1) = Some (0xFF00FF00, 5)"
  "sprite_pixel ex_lines (nat (bp_skip_top ex_bp_full) + 1) (nat (bp_skip_left ex_bp_full) + 2) = Some (0xFF0000FF, 5)"
  "sprite_pixel ex_lines (nat (bp_skip_top ex_bp_full) + 1) (nat (bp_skip_left ex_bp_full) + 3) = Some (0xFFFFFF00, 5)"
  by (simp_all add: ex_bp_def ex_bp_full_def sprite_pixel_def ex_lines_def line_pixels_def)

lemma ex_holds: "sprite_holds (bp_sprite ex_bp) 0 4 ex_lines"
  "sprite_holds (bp_sprite ex_bp_full) 0 4 ex_lines"
  using ex_sprite_holds by (simp_all add: ex_bp_def ex_bp_full_def)

lemma ex_anim: "anim_buf ex_screen = Some (\<lambda>i. 9)"
  by (simp add: ex_screen_def)

lemma ex_pitch: "bp_width ex_bp \<le> bp_pitch ex_bp" "bp_width ex_bp_full \<le> bp_pitch ex_bp_full"
  "int 4 \<le> bp_pitch ex_bp"
  by (simp_all add: ex_bp_def ex_bp_full_def)

lemma ex_in_rect:
  "int 0 < bp_height ex_bp" "int 2 < bp_width ex_bp"
  "int 0 < bp_height ex_bp_full" "int 1 < bp_height ex_bp_full"
  "int 0 < bp_width ex_bp_full" "int 1 < bp_width ex_bp_full"
  "int 2 < bp_width ex_bp_full" "int 3 < bp_width ex_bp_full"
  by (simp_all add: ex_bp_def ex_bp_full_def)

lemma ex_bp_simps:
  "bp_sprite ex_bp = ex_sprite" "bp_sprite ex_bp_full = ex_sprite"
  "bp_width ex_bp = 3" "bp_width ex_bp_full = 4" "bp_height ex_bp = 2" "bp_height ex_bp_full = 2"
  "bp_pitch ex_bp = 10" "bp_pitch ex_bp_full = 10"
  "bp_skip_left ex_bp = 1" "bp_skip_left ex_bp_full = 0"
  "bp_skip_top ex_bp = 0" "bp_skip_top ex_bp_full = 0"
  "bp_remap ex_bp = (\<lambda>m. if m = 5 then 0 else m)" "bp_remap ex_bp_full = (\<lambda>m. if m = 5 then 0 else m)"
  "pixel_address ex_bp y x = 1012 + 10 * int y + int x"
  "pixel_address ex_bp_full y x = 1012 + 10 * int y + int x"
  by (simp_all add: ex_bp_def ex_bp_full_def pixel_address_def)

lemma ex_screen_simps:
  "anim_buf ex_screen = Some (\<lambda>i. 9)" "dst_ptr ex_screen = 1000" "vmem ex_screen = (\<lambda>q. 0xFF102030)"
  "\<not> screen_disable_anim ex_screen" "s_pitch ex_screen = 10"
  by (simp_all add: ex_screen_def)

lemma ex_pixels:
  "sprite_pixel ex_lines 0 0 = None"
  "sprite_pixel ex_lines 0 1 = Some (0xFFFF0000, 5)"
  "sprite_pixel ex_lines 0 2 = Some (0xFF00FF00, 5)"
  "sprite_pixel ex_lines 0 3 = Some (0x800000FF, 5)"
  "sprite_pixel ex_lines 1 0 = Some (0xFFFF0000, 5)"
  "sprite_pixel ex_lines 1 1 = Some (0xFF00FF00, 5)"
  "sprite_pixel ex_lines 1 2 = Some (0xFF0000FF, 5)"
  "sprite_pixel ex_lines 1 3 = Some (0xFFFFFF00, 5)"
  by (simp_all add: sprite_pixel_def ex_lines_def line_pixels_def)


subsection \<open>Capture into a buffer and restore from it\<close>

lemma bytes_of_word32: 
  "ucast (ucast w :: u8) OR push_bit 8 (ucast (ucast (drop_bit 8 w) :: u8)) OR
   push_bit 16 (ucast (ucast (drop_bit 16 w) :: u8)) OR
   push_bit 24 (ucast (ucast (drop_bit 24 w) :: u8)) = (w :: u32)"
proof (rule bit_word_eqI)
  fix n assume n: "n < LENGTH(32)"
  consider "n < 8" | "8 \<le> n" "n < 16" | "16 \<le> n" "n < 24" | "24 \<le> n" "n < 32"
    using n by fastforce
  then show "bit (ucast (ucast w :: u8) OR push_bit 8 (ucast (ucast (drop_bit 8 w) :: u8)) OR
   push_bit 16 (ucast (ucast (drop_bit 16 w) :: u8)) OR
   push_bit 24 (ucast (ucast (drop_bit 24 w) :: u8)) :: u32) n = bit w n"
    by cases (auto simp: bit_simps)
qed

lemma load32_store32: "load32 (store32 mem a w) a = w"
  by (simp add: load32_def store32_def bytes_of_word32)

lemma store32_frame: "b < a \<or> a + 3 < b \<Longrightarrow> store32 mem a w b = mem b"
  by (auto simp: store32_def)

lemma load32_cong:
  "m1 a = m2 a \<Longrightarrow> m1 (a + 1) = m2 (a + 1) \<Longrightarrow> m1 (a + 2) = m2 (a + 2) \<Longrightarrow> m1 (a + 3) = m2 (a + 3)
   \<Longrightarrow> load32 m1 a = load32 m2 a"
  by (simp add: load32_def)

lemma copy_n_vmem_to_buf_frame:
  "b < r \<or> r + 4 * int n \<le> b \<Longrightarrow> copy_n_vmem_to_buf n vm f buf r b = buf b"
  by (induction n arbitrary: f buf r) (auto simp: store32_frame)

lemma copy_n_anim_to_buf_frame:
  "b < r \<or> r + int n \<le> b \<Longrightarrow> copy_n_anim_to_buf n am f buf r b = buf b"
  by (induction n arbitrary: f buf r) auto

lemma copy_n_buf_to_vmem_cong:
  "(\<And>b. r \<le> b \<Longrightarrow> b < r + 4 * int n \<Longrightarrow> B1 b = B2 b) \<Longrightarrow>
   copy_n_buf_to_vmem n B1 r vm f = copy_n_buf_to_vmem n B2 r vm f"
proof (induction n arbitrary: r vm f)
  case 0
  then show ?case by simp
next
  case (Suc n)
  have "load32 B1 r = load32 B2 r"
    by (rule load32_cong) (simp_all add: Suc.prems)
  moreover have "copy_n_buf_to_vmem n B1 (r + 4) vm' (f + 1) = copy_n_buf_to_vmem n B2 (r + 4) vm' (f + 1)" for vm'
    by (rule Suc.IH) (simp add: Suc.prems)
  ultimately show ?case by simp
qed

lemma copy_n_buf_to_anim_cong:
  "(\<And>b. r \<le> b \<Longrightarrow> b < r + int n \<Longrightarrow> B1 b = B2 b) \<Longrightarrow>
   copy_n_buf_to_anim n B1 r am f = copy_n_buf_to_anim n B2 r am f"
proof (induction n arbitrary: r am f)
  case 0
  then show ?case by simp
next
  case (Suc n)
  have "B1 r = B2 r" by (simp add: Suc.prems)
  moreover have "copy_n_buf_to_anim n B1 (r + 1) am' (f + 1) = copy_n_buf_to_anim n B2 (r + 1) am' (f + 1)" for am'
    by (rule Suc.IH) (simp add: Suc.prems)
  ultimately show ?case by simp
qed

lemma copy_vmem_roundtrip:
  "copy_n_buf_to_vmem n (copy_n_vmem_to_buf n vm f buf r) r vm2 f =
     (\<lambda>q. if f \<le> q \<and> q < f + int n then vm q else vm2 q)"
proof (induction n arbitrary: f buf r vm2)
  case 0
  then show ?case by (auto simp: fun_eq_iff)
next
  case (Suc n)
  let ?B = "copy_n_vmem_to_buf n vm (f + 1) (store32 buf r (vm f)) (r + 4)"
  have "load32 ?B r = load32 (store32 buf r (vm f)) r"
    by (rule load32_cong) (simp_all add: copy_n_vmem_to_buf_frame)
  then have "load32 ?B r = vm f" by (simp add: load32_store32)
  then have "copy_n_buf_to_vmem (Suc n) (copy_n_vmem_to_buf (Suc n) vm f buf r) r vm2 f =
               copy_n_buf_to_vmem n ?B (r + 4) (vm2(f := vm f)) (f + 1)"
    by simp
  also have "\<dots> = (\<lambda>q. if f + 1 \<le> q \<and> q < f + 1 + int n then vm q else (vm2(f := vm f)) q)"
    by (rule Suc.IH)
  also have "\<dots> = (\<lambda>q. if f \<le> q \<and> q < f + int (Suc n) then vm q else vm2 q)"
    by (auto simp: fun_eq_iff)
  finally show ?case .
qed

lemma copy_anim_roundtrip:
  "copy_n_buf_to_anim n (copy_n_anim_to_buf n am f buf r) r am2 f =
     (\<lambda>q. if f \<le> q \<and> q < f + int n then am q else am2 q)"
proof (induction n arbitrary: f buf r am2)
  case 0
  then show ?case by (auto simp: fun_eq_iff)
next
  case (Suc n)
  let ?B = "copy_n_anim_to_buf n am (f + 1) (buf(r := am f)) (r + 1)"
  have "?B r = am f" by (simp add: copy_n_anim_to_buf_frame)
  then have "copy_n_buf_to_anim (Suc n) (copy_n_anim_to_buf (Suc n) am f buf r) r am2 f =
               copy_n_buf_to_anim n ?B (r + 1) (am2(f := am f)) (f + 1)"
    by simp
  also have "\<dots> = (\<lambda>q. if f + 1 \<le> q \<and> q < f + 1 + int n then am q else (am2(f := am f)) q)"
    by (rule Suc.IH)
  also have "\<dots> = (\<lambda>q. if f \<le> q \<and> q < f + int (Suc n) then am q else am2 q)"
    by (auto simp: fun_eq_iff)
  finally show ?case .
qed

lemma CopyToBuffer_lines_frame:
  "0 \<le> width \<Longrightarrow> b < udst \<Longrightarrow>
   CopyToBuffer_lines h width pitch vm am src al udst buf b = buf b"
proof (induction h arbitrary: src al udst buf)
  case 0
  then show ?case by simp
next
  case (Suc h)
  then show ?case
    by (simp add: Let_def copy_n_anim_to_buf_frame copy_n_vmem_to_buf_frame)
qed

lemma CopyToBuffer_lines_neg:
  "width < 0 \<Longrightarrow> CopyToBuffer_lines h width pitch vm am src al udst buf = buf"
  by (induction h arbitrary: src al udst buf) (simp_all add: Let_def)

lemma CopyFromBuffer_lines_neg:
  "width < 0 \<Longrightarrow> CopyFromBuffer_lines h width pitch buf usrc d al (vm, am) = (vm, am)"
  by (induction h arbitrary: usrc d al) (simp_all add: Let_def)

lemma Copy_lines_roundtrip:
  "CopyFromBuffer_lines h width pitch
     (CopyToBuffer_lines h width pitch vm am src al udst buf) udst src al (vm, am) = (vm, am)"
proof (cases "width < 0")
  case True
  then show ?thesis by (simp add: CopyToBuffer_lines_neg CopyFromBuffer_lines_neg)
next
  case False
  then have w: "0 \<le> width" by simp
  define n where "n = nat width"
  have nw: "int n = width" using w by (simp add: n_def)
  show ?thesis
  proof (induction h arbitrary: src al udst buf)
    case 0
    then show ?case by simp
  next
    case (Suc h)
    define buf1 where "buf1 = copy_n_vmem_to_buf n vm src buf udst"
    define buf2 where "buf2 = copy_n_anim_to_buf n am al buf1 (udst + 4 * width)"
    define Bfin where "Bfin = CopyToBuffer_lines h width pitch vm am (src + pitch) (al + pitch)
                                (udst + 4 * width + width) buf2"
    have to: "CopyToBuffer_lines (Suc h) width pitch vm am src al udst buf = Bfin"
      by (simp add: Let_def Bfin_def buf2_def buf1_def n_def)
    have low: "Bfin b = buf2 b" if "b < udst + 4 * width + width" for b
      unfolding Bfin_def by (rule CopyToBuffer_lines_frame [OF w that])
    have "copy_n_buf_to_vmem n Bfin udst vm src = copy_n_buf_to_vmem n buf1 udst vm src"
    proof (rule copy_n_buf_to_vmem_cong)
      fix b assume "udst \<le> b" "b < udst + 4 * int n"
      then have "Bfin b = buf2 b" using w by (intro low) (simp add: nw)
      also have "\<dots> = buf1 b"
        unfolding buf2_def using \<open>b < udst + 4 * int n\<close>
        by (intro copy_n_anim_to_buf_frame) (simp add: nw)
      finally show "Bfin b = buf1 b" .
    qed
    also have "\<dots> = vm"
      unfolding buf1_def by (simp add: copy_vmem_roundtrip fun_eq_iff)
    finally have v1: "copy_n_buf_to_vmem n Bfin udst vm src = vm" .
    have "copy_n_buf_to_anim n Bfin (udst + 4 * width) am al =
            copy_n_buf_to_anim n buf2 (udst + 4 * width) am al"
    proof (rule copy_n_buf_to_anim_cong)
      fix b assume "udst + 4 * width \<le> b" "b < udst + 4 * width + int n"
      then show "Bfin b = buf2 b" by (intro low) (simp add: nw)
    qed
    also have "\<dots> = am"
      unfolding buf2_def by (simp add: copy_anim_roundtrip fun_eq_iff)
    finally have a1: "copy_n_buf_to_anim n Bfin (udst + 4 * width) am al = am" .
    have "CopyFromBuffer_lines (Suc h) width pitch Bfin udst src al (vm, am) =
            CopyFromBuffer_lines h width pitch Bfin (udst + 4 * width + width) (src + pitch) (al + pitch) (vm, am)"
      using v1 a1 by (simp add: Let_def n_def)
    also have "\<dots> = (vm, am)"
      unfolding Bfin_def by (rule Suc.IH)
    finally show ?case by (simp only: to)
  qed
qed

text \<open>
  Restoring a capture into buffers that changed since: the cells of the captured lines
  get what they held at the capture, every other cell keeps what it holds now.
\<close>

lemma rows_Suc:
  "(\<exists>j<Suc h. b + int j * p \<le> q \<and> q < b + int j * p + w) \<longleftrightarrow>
   (b \<le> q \<and> q < b + w) \<or> (\<exists>j<h. b + p + int j * p \<le> q \<and> q < b + p + int j * p + w)"
  (is "?L = (?A \<or> ?B)")
proof
  assume ?L
  then obtain k where k: "k < Suc h" "b + int k * p \<le> q" "q < b + int k * p + w"
    by blast
  show "?A \<or> ?B"
  proof (cases k)
    case 0
    then show ?thesis using k by simp
  next
    case (Suc j)
    then have "j < h" "b + p + int j * p \<le> q" "q < b + p + int j * p + w"
      using k by (simp_all add: algebra_simps)
    then show ?thesis by blast
  qed
next
  assume "?A \<or> ?B"
  then show ?L
  proof
    assume ?A
    then have "b + int 0 * p \<le> q \<and> q < b + int 0 * p + w" by simp
    then show ?L by blast
  next
    assume ?B
    then obtain j where j: "j < h" "b + p + int j * p \<le> q" "q < b + p + int j * p + w" by blast
    then have "Suc j < Suc h" "b + int (Suc j) * p \<le> q" "q < b + int (Suc j) * p + w"
      by (simp_all add: algebra_simps)
    then show ?L by blast
  qed
qed

lemma Copy_lines_restore:
  assumes w: "0 \<le> width"
  shows "CopyFromBuffer_lines h width pitch
           (CopyToBuffer_lines h width pitch vm am src al udst buf) udst src al (vm2, am2) =
         (\<lambda>q. if \<exists>j<h. src + int j * pitch \<le> q \<and> q < src + int j * pitch + width
               then vm q else vm2 q,
          \<lambda>i. if \<exists>j<h. al + int j * pitch \<le> i \<and> i < al + int j * pitch + width
               then am i else am2 i)"
proof -
  define n where "n = nat width"
  have nw: "int n = width" using w by (simp add: n_def)
  show ?thesis
  proof (induction h arbitrary: src al udst buf vm2 am2)
    case 0
    then show ?case by simp
  next
    case (Suc h)
    define buf1 where "buf1 = copy_n_vmem_to_buf n vm src buf udst"
    define buf2 where "buf2 = copy_n_anim_to_buf n am al buf1 (udst + 4 * width)"
    define Bfin where "Bfin = CopyToBuffer_lines h width pitch vm am (src + pitch) (al + pitch)
                                (udst + 4 * width + width) buf2"
    define vm3 where "vm3 = (\<lambda>q. if src \<le> q \<and> q < src + width then vm q else vm2 q)"
    define am3 where "am3 = (\<lambda>i. if al \<le> i \<and> i < al + width then am i else am2 i)"
    have to: "CopyToBuffer_lines (Suc h) width pitch vm am src al udst buf = Bfin"
      by (simp add: Let_def Bfin_def buf2_def buf1_def n_def)
    have low: "Bfin b = buf2 b" if "b < udst + 4 * width + width" for b
      unfolding Bfin_def by (rule CopyToBuffer_lines_frame [OF w that])
    have "copy_n_buf_to_vmem n Bfin udst vm2 src = copy_n_buf_to_vmem n buf1 udst vm2 src"
    proof (rule copy_n_buf_to_vmem_cong)
      fix b assume "udst \<le> b" "b < udst + 4 * int n"
      then have "Bfin b = buf2 b" using w by (intro low) (simp add: nw)
      also have "\<dots> = buf1 b"
        unfolding buf2_def using \<open>b < udst + 4 * int n\<close>
        by (intro copy_n_anim_to_buf_frame) (simp add: nw)
      finally show "Bfin b = buf1 b" .
    qed
    also have "\<dots> = vm3"
      unfolding buf1_def vm3_def by (simp add: copy_vmem_roundtrip nw)
    finally have v1: "copy_n_buf_to_vmem n Bfin udst vm2 src = vm3" .
    have "copy_n_buf_to_anim n Bfin (udst + 4 * width) am2 al =
            copy_n_buf_to_anim n buf2 (udst + 4 * width) am2 al"
    proof (rule copy_n_buf_to_anim_cong)
      fix b assume "udst + 4 * width \<le> b" "b < udst + 4 * width + int n"
      then show "Bfin b = buf2 b" by (intro low) (simp add: nw)
    qed
    also have "\<dots> = am3"
      unfolding buf2_def am3_def by (simp add: copy_anim_roundtrip nw)
    finally have a1: "copy_n_buf_to_anim n Bfin (udst + 4 * width) am2 al = am3" .
    have "CopyFromBuffer_lines (Suc h) width pitch Bfin udst src al (vm2, am2) =
            CopyFromBuffer_lines h width pitch Bfin (udst + 4 * width + width) (src + pitch) (al + pitch)
              (vm3, am3)"
      using v1 a1 by (simp add: Let_def n_def)
    also have "\<dots> =
         (\<lambda>q. if \<exists>j<h. src + pitch + int j * pitch \<le> q \<and> q < src + pitch + int j * pitch + width
               then vm q else vm3 q,
          \<lambda>i. if \<exists>j<h. al + pitch + int j * pitch \<le> i \<and> i < al + pitch + int j * pitch + width
               then am i else am3 i)"
      unfolding Bfin_def by (rule Suc.IH)
    also have "\<dots> =
         (\<lambda>q. if \<exists>j<Suc h. src + int j * pitch \<le> q \<and> q < src + int j * pitch + width
               then vm q else vm2 q,
          \<lambda>i. if \<exists>j<Suc h. al + int j * pitch \<le> i \<and> i < al + int j * pitch + width
               then am i else am2 i)"
      unfolding rows_Suc vm3_def am3_def by (auto simp: fun_eq_iff)
    finally show ?case by (simp only: to)
  qed
qed

section \<open>The claims about Draw\<close>

text \<open>
  C4.  For a well-formed sprite and a request within the bounds of the sprite, every cell
  of the rectangle the request draws holds, after \<open>Draw<mode>\<close> with the skips, the same
  colour word and the same animation byte as after drawing the whole sprite with no
  skips at the corresponding place; both draws return.
\<close>

theorem Draw_skip_is_clip:
  assumes "sprite_holds (bp_sprite bp) zoom W ls"
    and "params_in_bounds bp W (length ls)"
    and "anim_buf S = Some am"
    and "int W \<le> bp_pitch bp"
    and "int y < bp_height bp" and "int x < bp_width bp"
  shows "colour_after (Draw_mode P mode bp zoom S) (pixel_address bp y x) =
           colour_after (Draw_mode P mode (unclipped bp W (length ls)) zoom S) (pixel_address bp y x) \<and>
         anim_after (Draw_mode P mode bp zoom S) (pixel_address bp y x - dst_ptr S) =
           anim_after (Draw_mode P mode (unclipped bp W (length ls)) zoom S)
             (pixel_address bp y x - dst_ptr S) \<and>
         colour_after (Draw_mode P mode bp zoom S) (pixel_address bp y x) \<noteq> None \<and>
         anim_after (Draw_mode P mode bp zoom S) (pixel_address bp y x - dst_ptr S) \<noteq> None"
proof -
  let ?u = "unclipped bp W (length ls)"
  define k where "k = nat (bp_skip_top bp)"
  define j where "j = nat (bp_skip_left bp)"
  from assms(2) have st: "0 \<le> bp_skip_top bp" and hh: "0 \<le> bp_height bp"
    and sl: "0 \<le> bp_skip_left bp" and w: "0 < bp_width bp"
    and sumh: "bp_skip_top bp + bp_height bp \<le> int (length ls)"
    and sumw: "bp_skip_left bp + bp_width bp \<le> int W"
    and Wb: "int W < 2 ^ 31" and Hb: "int (length ls) < 2 ^ 31"
    by (simp_all add: params_in_bounds_def)
  have wp: "bp_width bp \<le> bp_pitch bp" using sumw sl assms(4) by linarith
  have W0: "0 < int W" using sumw sl w by linarith
  have sh': "sprite_holds (bp_sprite ?u) zoom W ls" using assms(1) by (simp add: unclipped_def)
  have pb': "params_in_bounds ?u W (length ls)"
    using W0 Wb Hb by (simp add: params_in_bounds_def unclipped_def)
  have wp': "bp_width ?u \<le> bp_pitch ?u" using assms(4) by (simp add: unclipped_def)
  have y': "int (k + y) < bp_height ?u" using assms(5) st sumh by (simp add: unclipped_def k_def)
  have x': "int (j + x) < bp_width ?u" using assms(6) sl sumw by (simp add: unclipped_def j_def)
  have addr: "pixel_address ?u (k + y) (j + x) = pixel_address bp y x"
    using st sl by (simp add: pixel_address_def unclipped_def k_def j_def algebra_simps)
  have u0: "nat (bp_skip_top ?u) + (k + y) = nat (bp_skip_top bp) + y"
    "nat (bp_skip_left ?u) + (j + x) = nat (bp_skip_left bp) + x" "bp_remap ?u = bp_remap bp"
    by (simp_all add: unclipped_def k_def j_def)
  note c = Draw_mode_cell [OF assms(1) assms(2) assms(3) wp assms(5) assms(6), of P mode]
  note f = Draw_mode_cell [OF sh' pb' assms(3) wp' y' x', of P mode, unfolded addr u0]
  show ?thesis by (simp add: c f)
qed


theorem Draw_skip_is_clip_witness:
  "colour_after (Draw_mode ex_prims Normal ex_bp 0 ex_screen) 1014 =
     colour_after (Draw_mode ex_prims Normal (unclipped ex_bp 4 2) 0 ex_screen) 1014 \<and>
   anim_after (Draw_mode ex_prims Normal ex_bp 0 ex_screen) 14 =
     anim_after (Draw_mode ex_prims Normal (unclipped ex_bp 4 2) 0 ex_screen) 14 \<and>
   colour_after (Draw_mode ex_prims Normal ex_bp 0 ex_screen) 1014 \<noteq> None \<and>
   anim_after (Draw_mode ex_prims Normal ex_bp 0 ex_screen) 14 \<noteq> None"
proof -
  have len: "length ex_lines = 2" by (simp add: ex_lines_def)
  have a: "pixel_address ex_bp 0 2 = 1014" "1014 - dst_ptr ex_screen = 14"
    by (simp_all add: ex_bp_simps ex_screen_simps)
  show ?thesis
    using Draw_skip_is_clip [OF ex_holds(1) ex_params(1) ex_anim ex_pitch(3) ex_in_rect(1) ex_in_rect(2),
        of ex_prims Normal]
    unfolding a len .
qed

text \<open>
  C5.  In every mode, a cell of the drawn rectangle whose source column lies in a fully
  transparent run (\<open>a = 0\<close>; the pixel of the sprite there is \<open>None\<close>) holds after the
  draw the colour word and the animation byte it held before, and the draw returns.
\<close>

theorem Draw_transparent_run_noop:
  assumes "sprite_holds (bp_sprite bp) zoom W ls"
    and "params_in_bounds bp W (length ls)"
    and "anim_buf S = Some am"
    and "bp_width bp \<le> bp_pitch bp"
    and "int y < bp_height bp" and "int x < bp_width bp"
    and "sprite_pixel ls (nat (bp_skip_top bp) + y) (nat (bp_skip_left bp) + x) = None"
  shows "colour_after (Draw_mode P mode bp zoom S) (pixel_address bp y x) =
           Some (vmem S (pixel_address bp y x)) \<and>
         anim_after (Draw_mode P mode bp zoom S) (pixel_address bp y x - dst_ptr S) =
           Some (am (pixel_address bp y x - dst_ptr S))"
  using Draw_mode_cell [OF assms(1-6), of P mode] assms(7)
  by (simp add: compose_at_def)

theorem Draw_transparent_run_noop_witness:
  "colour_after (Draw_mode ex_prims BlackRemap ex_bp_full 0 ex_screen) 1012 = Some 0xFF102030 \<and>
   anim_after (Draw_mode ex_prims BlackRemap ex_bp_full 0 ex_screen) 12 = Some 9"
  using Draw_transparent_run_noop [OF ex_holds(2) ex_params(2) ex_anim ex_pitch(2) ex_in_rect(3)
      ex_in_rect(5) ex_pixel_at(1), of ex_prims BlackRemap]
  by (simp add: ex_bp_simps ex_screen_simps)

text \<open>
  C6.  In the modes ColourRemap and CrashRemap, a cell of the drawn rectangle whose source
  pixel (opaque or translucent) has an animation class \<open>m \<noteq> 0\<close> with \<open>remap[m] = 0\<close>
  holds after the draw the colour word and the animation byte it held before.
\<close>

theorem Draw_remap_zero_skips_write:
  assumes "sprite_holds (bp_sprite bp) zoom W ls"
    and "params_in_bounds bp W (length ls)"
    and "anim_buf S = Some am"
    and "bp_width bp \<le> bp_pitch bp"
    and "int y < bp_height bp" and "int x < bp_width bp"
    and "mode = ColourRemap \<or> mode = CrashRemap"
    and "sprite_pixel ls (nat (bp_skip_top bp) + y) (nat (bp_skip_left bp) + x) = Some (px, e)"
    and "ucast (GB e 0 8) \<noteq> (0 :: u8)"
    and "bp_remap bp (ucast (GB e 0 8)) = 0"
  shows "colour_after (Draw_mode P mode bp zoom S) (pixel_address bp y x) =
           Some (vmem S (pixel_address bp y x)) \<and>
         anim_after (Draw_mode P mode bp zoom S) (pixel_address bp y x - dst_ptr S) =
           Some (am (pixel_address bp y x - dst_ptr S))"
  using Draw_mode_cell [OF assms(1-6), of P mode] assms(7-10)
  by (auto simp: compose_at_def compose_px_def px_remap_opaque_def px_remap_blend_def Let_def)

lemma GB_low_byte_5: "(ucast (GB 5 0 8) :: u8) \<noteq> 0" "(ucast (GB 5 0 8) :: u8) = 5"
  by (simp_all add: GB_def mask_eq_exp_minus_1)

lemma ex_remap_5: "bp_remap ex_bp (ucast (GB 5 0 8)) = 0" "bp_remap ex_bp_full (ucast (GB 5 0 8)) = 0"
  by (simp_all add: GB_low_byte_5 ex_bp_def ex_bp_full_def)

theorem Draw_remap_zero_skips_write_witness:
  "colour_after (Draw_mode ex_prims ColourRemap ex_bp_full 0 ex_screen) 1022 = Some 0xFF102030 \<and>
   anim_after (Draw_mode ex_prims ColourRemap ex_bp_full 0 ex_screen) 22 = Some 9 \<and>
   colour_after (Draw_mode ex_prims ColourRemap ex_bp_full 0 ex_screen) 1023 = Some 0xFF102030 \<and>
   anim_after (Draw_mode ex_prims ColourRemap ex_bp_full 0 ex_screen) 23 = Some 9 \<and>
   colour_after (Draw_mode ex_prims ColourRemap ex_bp_full 0 ex_screen) 1024 = Some 0xFF102030 \<and>
   anim_after (Draw_mode ex_prims ColourRemap ex_bp_full 0 ex_screen) 24 = Some 9 \<and>
   colour_after (Draw_mode ex_prims ColourRemap ex_bp_full 0 ex_screen) 1025 = Some 0xFF102030 \<and>
   anim_after (Draw_mode ex_prims ColourRemap ex_bp_full 0 ex_screen) 25 = Some 9 \<and>
   colour_after (Draw_mode ex_prims CrashRemap ex_bp 0 ex_screen) 1014 = Some 0xFF102030 \<and>
   anim_after (Draw_mode ex_prims CrashRemap ex_bp 0 ex_screen) 14 = Some 9"
proof -
  note r = Draw_remap_zero_skips_write [OF ex_holds(2) ex_params(2) ex_anim ex_pitch(2) ex_in_rect(4) _ _ _
      GB_low_byte_5(1) ex_remap_5(2), of _ ColourRemap _ ex_prims]
  note c = Draw_remap_zero_skips_write [OF ex_holds(1) ex_params(1) ex_anim ex_pitch(1) ex_in_rect(1)
      ex_in_rect(2) _ ex_pixel_at(2) GB_low_byte_5(1) ex_remap_5(1), of CrashRemap ex_prims]
  show ?thesis
    using r [OF ex_in_rect(5) _ ex_pixel_at(3)] r [OF ex_in_rect(6) _ ex_pixel_at(4)]
      r [OF ex_in_rect(7) _ ex_pixel_at(5)] r [OF ex_in_rect(8) _ ex_pixel_at(6)] c
    by (simp add: ex_bp_simps ex_screen_simps)
qed


text \<open>
  What Normal mode does with a translucent source pixel (\<open>0 < a < 255\<close>) of animation
  class \<open>m\<close> (lines 295 to 305): the cell gets \<open>m\<close> itself as its animation byte, \<open>0\<close> when
  \<open>m = 0\<close>, with the direct RGBA blend as its colour, and \<open>m\<close> when \<open>m \<noteq> 0\<close>, with the blend
  of the palette colour of \<open>m\<close> as its colour.  Either blend is against
  \<open>RealizeBlendedColour\<close> of the cell's previous contents.
\<close>

lemma Draw_normal_translucent:
  assumes "sprite_holds (bp_sprite bp) zoom W ls"
    and "params_in_bounds bp W (length ls)"
    and "anim_buf S = Some am"
    and "bp_width bp \<le> bp_pitch bp"
    and "int y < bp_height bp" and "int x < bp_width bp"
    and "sprite_pixel ls (nat (bp_skip_top bp) + y) (nat (bp_skip_left bp) + x) = Some (px, e)"
    and "Colour_a px \<noteq> 0" and "Colour_a px \<noteq> 255"
  shows "anim_after (Draw_mode P Normal bp zoom S) (pixel_address bp y x - dst_ptr S) =
           Some (ucast (GB e 0 8)) \<and>
         colour_after (Draw_mode P Normal bp zoom S) (pixel_address bp y x) =
           Some (if (ucast (GB e 0 8) :: u8) = 0
                 then ComposeColourRGBANoCheck P (Colour_r px) (Colour_g px) (Colour_b px) (Colour_a px)
                        (RealizeBlendedColour P (am (pixel_address bp y x - dst_ptr S))
                           (vmem S (pixel_address bp y x)))
                 else ComposeColourPANoCheck P (LookupColourInPalette P (ucast (GB e 0 8))) (Colour_a px)
                        (RealizeBlendedColour P (am (pixel_address bp y x - dst_ptr S))
                           (vmem S (pixel_address bp y x))))"
  using Draw_mode_cell [OF assms(1-6), of P Normal] assms(7-9) modes_distinct
  by (simp add: compose_at_def compose_px_def px_normal_blend_def Let_def)

lemma ex_translucent: "Colour_a 0x800000FF \<noteq> 0" "Colour_a 0x800000FF \<noteq> 255" "Colour_a 0x800000FF = 0x80"
  by (simp_all add: Colour_a_def)

text \<open>
  C1 at the example sprite: in Normal mode the translucent pixel (\<open>a = 0x80\<close>) of
  animation class 5 in line 0 leaves its cell with the animation byte 5, not 0, together
  with an alpha-blended colour (the blend of the palette colour of class 5 against the
  realized previous contents of the cell).
\<close>

theorem Draw_normal_translucent_anim_class_5:
  "sprite_pixel ex_lines 0 3 = Some (0x800000FF, 5) \<and> Colour_a 0x800000FF = 0x80 \<and>
   anim_after (Draw_mode ex_prims Normal ex_bp 0 ex_screen) 14 = Some 5 \<and> (5 :: u8) \<noteq> 0 \<and>
   colour_after (Draw_mode ex_prims Normal ex_bp 0 ex_screen) 1014 =
     Some (ex_blend 5 5 5 0x80 (ex_palette 9))"
proof -
  have a: "pixel_address ex_bp 0 2 = 1014" "1014 - dst_ptr ex_screen = 14"
    by (simp_all add: ex_bp_simps ex_screen_simps)
  have p: "Colour_r (ex_palette 5) = 5" "Colour_g (ex_palette 5) = 5" "Colour_b (ex_palette 5) = 5"
    by (simp_all add: ex_palette_def mk_Colour_def Colour_r_def Colour_g_def Colour_b_def)
  have "anim_after (Draw_mode ex_prims Normal ex_bp 0 ex_screen) 14 = Some 5 \<and>
        colour_after (Draw_mode ex_prims Normal ex_bp 0 ex_screen) 1014 =
          Some (ex_blend 5 5 5 0x80 (ex_palette 9))"
    using Draw_normal_translucent [OF ex_holds(1) ex_params(1) ex_anim ex_pitch(1) ex_in_rect(1)
        ex_in_rect(2) ex_pixel_at(2) ex_translucent(1) ex_translucent(2), of ex_prims]
    unfolding a
    by (simp add: GB_low_byte_5 ex_prims_def ex_screen_simps ex_translucent p)
  then show ?thesis
    by (simp add: ex_translucent sprite_pixel_def ex_lines_def line_pixels_def)
qed

section \<open>The claims about the other operations\<close>

lemma black_channels:
  "Colour_r black_colour = 0" "Colour_g black_colour = 0" "Colour_b black_colour = 0"
  "Colour_a black_colour = 0xFF"
  by (simp_all add: black_colour_def mk_Colour_def Colour_r_def Colour_g_def Colour_b_def Colour_a_def)

lemma in_rect_iff:
  "in_rect base pitch width height q \<longleftrightarrow>
     (\<exists>j<nat height. base + int j * pitch \<le> q \<and> q < base + int j * pitch + width)"
  by (auto simp: in_rect_def list_ex_iff)

lemma DrawRect_line_eq:
  "DrawRect_line i pv d a (vm, am) =
     (\<lambda>q. if d \<le> q \<and> q < d + int i then black_colour else vm q,
      \<lambda>q. if a \<le> q \<and> q < a + int i then pv else am q)"
  by (induction i arbitrary: d a vm am) (auto simp: fun_eq_iff)

lemma DrawRect_rows_eq:
  "DrawRect_rows k w pitch pv video anim_line (vm, am) =
     (\<lambda>q. if \<exists>j<k. video + int j * pitch \<le> q \<and> q < video + int j * pitch + int w
           then black_colour else vm q,
      \<lambda>q. if \<exists>j<k. anim_line + int j * pitch \<le> q \<and> q < anim_line + int j * pitch + int w
           then pv else am q)"
proof (induction k arbitrary: video anim_line vm am)
  case 0
  then show ?case by simp
next
  case (Suc k)
  have ex: "\<And>P. (\<exists>j<Suc k. P j) = (P 0 \<or> (\<exists>j<k. P (Suc j)))"
    by (metis less_Suc_eq_0_disj)
  show ?case
    apply (simp add: DrawRect_line_eq Suc.IH ex del: ex_simps)
    apply (auto simp: fun_eq_iff algebra_simps)
    done
qed

lemma to_size_t_id: "0 \<le> i \<Longrightarrow> i < 2 ^ 64 \<Longrightarrow> to_size_t i = i"
  by (simp add: to_size_t_def)

lemma do_while_count_pos: "0 < h \<Longrightarrow> h < 2 ^ 32 \<Longrightarrow> do_while_count h = nat h"
  by (simp add: do_while_count_def)

lemma in_rect_width:
  "(\<exists>j<nat height. base + int j * pitch \<le> q \<and> q < base + int j * pitch + int (nat width)) \<longleftrightarrow>
   in_rect base pitch width height q"
  by (auto simp: in_rect_iff)

text \<open>
  C10.  With animation enabled (and the animation buffer there), SetPixel writes black
  into the colour cell of the pixel and the palette index \<open>colour.p\<close> into the animation
  byte at the same offset from the start of the screen, and changes nothing else; DrawRect
  does the same for every cell of its rectangle.  The requested colour itself is not
  stored in the colour buffer: the cells get \<open>_black_colour\<close>, whose \<open>r\<close>, \<open>g\<close>, \<open>b\<close> are 0.
\<close>

theorem SetPixel_DrawRect_black_and_index:
  assumes "\<not> screen_disable_anim S" and "anim_buf S = Some am"
    and "0 \<le> y" and "0 \<le> s_pitch S" and "y * s_pitch S < 2 ^ 64"
    and "0 \<le> video - dst_ptr S + x + y * s_pitch S"
    and "video - dst_ptr S + x + y * s_pitch S < 2 ^ 64"
    and "0 < height" and "height < 2 ^ 32"
  shows "SetPixel parent video x y colour S =
           Inr (S\<lparr>vmem := (vmem S)(video + x + y * s_pitch S := black_colour),
                  anim_buf := Some (am(video + x + y * s_pitch S - dst_ptr S := colour_p colour))\<rparr>) \<and>
         DrawRect parent video width height colour S =
           Inr (S\<lparr>vmem := (\<lambda>q. if in_rect video (s_pitch S) width height q
                              then black_colour else vmem S q),
                  anim_buf := Some (\<lambda>i. if in_rect video (s_pitch S) width height (i + dst_ptr S)
                                         then colour_p colour else am i)\<rparr>) \<and>
         Colour_r black_colour = 0 \<and> Colour_g black_colour = 0 \<and> Colour_b black_colour = 0"
proof -
  have yo: "to_size_t (to_size_t y * to_size_t (s_pitch S)) = y * s_pitch S"
  proof -
    have "y * s_pitch S < 2 ^ 64" by (rule assms(5))
    have y1: "s_pitch S \<noteq> 0 \<Longrightarrow> y < 2 ^ 64"
    proof -
      assume "s_pitch S \<noteq> 0"
      with assms(4) have "1 \<le> s_pitch S" by simp
      with assms(3) have "y * 1 \<le> y * s_pitch S" by (intro mult_left_mono) simp_all
      with assms(5) show ?thesis by simp
    qed
    have p1: "y \<noteq> 0 \<Longrightarrow> s_pitch S < 2 ^ 64"
    proof -
      assume "y \<noteq> 0"
      with assms(3) have "1 \<le> y" by simp
      with assms(4) have "1 * s_pitch S \<le> y * s_pitch S" by (intro mult_right_mono) simp_all
      with assms(5) show ?thesis by simp
    qed
    show ?thesis
    proof (cases "y = 0 \<or> s_pitch S = 0")
      case True
      then show ?thesis by (auto simp: to_size_t_def)
    next
      case False
      then have "to_size_t y = y" "to_size_t (s_pitch S) = s_pitch S"
        using y1 p1 assms(3,4) by (simp_all add: to_size_t_id)
      then show ?thesis using assms(3,4,5) by (simp add: to_size_t_id)
    qed
  qed
  have ai: "to_size_t (video - dst_ptr S + x + y * s_pitch S) = video + x + y * s_pitch S - dst_ptr S"
    using assms(6,7) by (simp add: to_size_t_id)
  have sp: "SetPixel parent video x y colour S =
           Inr (S\<lparr>vmem := (vmem S)(video + x + y * s_pitch S := black_colour),
                  anim_buf := Some (am(video + x + y * s_pitch S - dst_ptr S := colour_p colour))\<rparr>)"
  proof -
    have ci: "dst_ptr S + (video + x + y * s_pitch S - dst_ptr S) = video + x + y * s_pitch S"
      by simp
    have d: "SetPixel parent video x y colour S =
           Inr (S\<lparr>vmem := (vmem S)(dst_ptr S + to_size_t (video - dst_ptr S + x + y * s_pitch S)
                                    := black_colour),
                  anim_buf := Some (am(to_size_t (video - dst_ptr S + x + y * s_pitch S)
                                      := colour_p colour))\<rparr>)"
      using assms(1,2) by (simp add: SetPixel_def Let_def yo)
    show ?thesis
      unfolding d ai ci by (rule refl)
  qed
  have e1: "(\<exists>j<nat height. video + int j * s_pitch S \<le> q \<and> q < video + int j * s_pitch S + int (nat width))
             = in_rect video (s_pitch S) width height q" for q
    by (auto simp: in_rect_iff)
  have e2: "(\<exists>j<nat height. video - dst_ptr S + int j * s_pitch S \<le> i \<and>
                i < video - dst_ptr S + int j * s_pitch S + int (nat width))
             = in_rect video (s_pitch S) width height (i + dst_ptr S)" for i
    by (auto simp: in_rect_iff)
  have dr: "DrawRect parent video width height colour S =
           Inr (S\<lparr>vmem := (\<lambda>q. if in_rect video (s_pitch S) width height q
                              then black_colour else vmem S q),
                  anim_buf := Some (\<lambda>i. if in_rect video (s_pitch S) width height (i + dst_ptr S)
                                         then colour_p colour else am i)\<rparr>)"
  proof -
    have rows: "DrawRect_rows (nat height) (nat width) (s_pitch S) (colour_p colour) video
                  (video - dst_ptr S) (vmem S, am) =
                (\<lambda>q. if in_rect video (s_pitch S) width height q then black_colour else vmem S q,
                 \<lambda>i. if in_rect video (s_pitch S) width height (i + dst_ptr S)
                      then colour_p colour else am i)"
      by (simp only: DrawRect_rows_eq e1 e2)
    show ?thesis
      using assms(1,2,8,9) by (simp add: DrawRect_def Let_def do_while_count_pos rows)
  qed
  from sp dr show ?thesis by (simp add: black_channels)
qed

lemma ex_SetPixel_DrawRect_hyps:
  "\<not> screen_disable_anim ex_screen" "anim_buf ex_screen = Some (\<lambda>i. 9)"
  "(0 :: int) \<le> 1" "0 \<le> s_pitch ex_screen" "1 * s_pitch ex_screen < 2 ^ 64"
  "0 \<le> 1000 - dst_ptr ex_screen + 2 + 1 * s_pitch ex_screen"
  "1000 - dst_ptr ex_screen + 2 + 1 * s_pitch ex_screen < 2 ^ 64"
  "(0 :: int) < 2" "(2 :: int) < 2 ^ 32"
  by (simp_all add: ex_screen_def)

theorem SetPixel_DrawRect_black_and_index_witness:
  "SetPixel ex_parent 1000 2 1 \<lparr>colour_p = 7\<rparr> ex_screen =
     Inr (ex_screen\<lparr>vmem := (vmem ex_screen)(1012 := black_colour),
            anim_buf := Some ((\<lambda>i. 9)(12 := 7))\<rparr>) \<and>
   DrawRect ex_parent 1000 3 2 \<lparr>colour_p = 7\<rparr> ex_screen =
     Inr (ex_screen\<lparr>vmem := (\<lambda>q. if in_rect 1000 10 3 2 q then black_colour else vmem ex_screen q),
            anim_buf := Some (\<lambda>i. if in_rect 1000 10 3 2 (i + 1000) then 7 else 9)\<rparr>) \<and>
   in_rect 1000 10 3 2 1012 \<and> \<not> in_rect 1000 10 3 2 1013"
proof -
  have r: "in_rect 1000 10 3 2 1012" "\<not> in_rect 1000 10 3 2 1013"
    by (simp_all add: in_rect_def upt_rec)
  show ?thesis
    using SetPixel_DrawRect_black_and_index [OF ex_SetPixel_DrawRect_hyps,
        of ex_parent "\<lparr>colour_p = 7\<rparr>" 3] r
    by (simp add: ex_screen_simps cong: if_cong)
qed

lemma in_rect_empty: "width < 0 \<Longrightarrow> \<not> in_rect base pitch width height q"
  by (auto simp: in_rect_iff)

text \<open>
  C2.  With animation enabled, an animation buffer and \<open>video\<close> inside the screen:
  capture a rectangle with CopyToBuffer, let the colour buffer and the animation buffer
  change in any way, and restore the captured bytes with CopyFromBuffer at the same
  origin and with the same extent.  Both calls return; every cell of the rectangle, colour
  word and animation byte, holds what it held at the capture, and every other cell is left
  as it is.  So when the buffers changed inside the rectangle only, the screen after the
  restore is the screen before the capture.
\<close>

theorem Copy_capture_restore_identity:
  assumes "\<not> screen_disable_anim S" and "video_in_screen S video" and "anim_buf S = Some am"
  shows "\<exists>buf'. CopyToBuffer video dest width height S buf = Inr buf' \<and>
           CopyFromBuffer video dest width height buf' (S\<lparr>vmem := vm2, anim_buf := Some am2\<rparr>) =
             Inr (S\<lparr>vmem := (\<lambda>q. if in_rect video (s_pitch S) width height q
                                  then vmem S q else vm2 q),
                    anim_buf := Some (\<lambda>i. if in_rect video (s_pitch S) width height (i + dst_ptr S)
                                           then am i else am2 i)\<rparr>) \<and>
           ((\<forall>q. \<not> in_rect video (s_pitch S) width height q \<longrightarrow> vm2 q = vmem S q) \<and>
            (\<forall>i. \<not> in_rect video (s_pitch S) width height (i + dst_ptr S) \<longrightarrow> am2 i = am i) \<longrightarrow>
            CopyFromBuffer video dest width height buf' (S\<lparr>vmem := vm2, anim_buf := Some am2\<rparr>) =
              Inr S)"
proof -
  define R where "R = in_rect video (s_pitch S) width height"
  define buf' where "buf' = CopyToBuffer_lines (nat height) width (s_pitch S) (vmem S) am video
                              (video - dst_ptr S) dest buf"
  have cap: "CopyToBuffer video dest width height S buf = Inr buf'"
    using assms by (simp add: CopyToBuffer_def buf'_def)
  have lines: "CopyFromBuffer_lines (nat height) width (s_pitch S) buf' dest video
                 (video - dst_ptr S) (vm2, am2) =
               (\<lambda>q. if R q then vmem S q else vm2 q,
                \<lambda>i. if R (i + dst_ptr S) then am i else am2 i)"
  proof (cases "width < 0")
    case True
    then show ?thesis
      unfolding buf'_def R_def
      by (simp add: CopyToBuffer_lines_neg CopyFromBuffer_lines_neg in_rect_empty)
  next
    case False
    then have w: "0 \<le> width" by simp
    have e: "(\<exists>j<nat height. video - dst_ptr S + int j * s_pitch S \<le> i \<and>
                i < video - dst_ptr S + int j * s_pitch S + width) = R (i + dst_ptr S)" for i
      unfolding R_def by (auto simp: in_rect_iff)
    show ?thesis
      unfolding buf'_def Copy_lines_restore [OF w] e
      by (simp add: R_def in_rect_iff [symmetric])
  qed
  have res: "CopyFromBuffer video dest width height buf' (S\<lparr>vmem := vm2, anim_buf := Some am2\<rparr>) =
             Inr (S\<lparr>vmem := (\<lambda>q. if R q then vmem S q else vm2 q),
                    anim_buf := Some (\<lambda>i. if R (i + dst_ptr S) then am i else am2 i)\<rparr>)"
    using assms(1,2) by (simp add: CopyFromBuffer_def video_in_screen_def lines)
  have same: "S\<lparr>vmem := (\<lambda>q. if R q then vmem S q else vm2 q),
                 anim_buf := Some (\<lambda>i. if R (i + dst_ptr S) then am i else am2 i)\<rparr> = S"
    if "\<forall>q. \<not> R q \<longrightarrow> vm2 q = vmem S q" "\<forall>i. \<not> R (i + dst_ptr S) \<longrightarrow> am2 i = am i"
  proof -
    have "(\<lambda>q. if R q then vmem S q else vm2 q) = vmem S" using that(1) by (auto simp: fun_eq_iff)
    moreover have "(\<lambda>i. if R (i + dst_ptr S) then am i else am2 i) = am"
      using that(2) by (auto simp: fun_eq_iff)
    ultimately show ?thesis using assms(3) by simp
  qed
  show ?thesis
    using cap res same unfolding R_def by auto
qed

lemma ex_video_in_screen: "video_in_screen ex_screen 1012" "\<not> screen_disable_anim ex_screen"
  "anim_buf ex_screen = Some (\<lambda>i. 9)"
  by (simp_all add: video_in_screen_def ex_screen_def)

theorem Copy_capture_restore_identity_witness:
  "\<exists>buf'. CopyToBuffer 1012 0 3 2 ex_screen (\<lambda>a. 0) = Inr buf' \<and>
          CopyFromBuffer 1012 0 3 2 buf'
            (ex_screen\<lparr>vmem := (vmem ex_screen)(1013 := 0), anim_buf := Some ((\<lambda>i. 9)(13 := 0))\<rparr>) =
            Inr ex_screen"
proof -
  have r: "in_rect 1012 10 3 2 1013"
    by (simp add: in_rect_def upt_rec)
  have v: "\<forall>q. \<not> in_rect 1012 (s_pitch ex_screen) 3 2 q \<longrightarrow>
             ((vmem ex_screen)(1013 := 0)) q = vmem ex_screen q"
    using r by (simp add: ex_screen_simps)
  have a: "\<forall>i. \<not> in_rect 1012 (s_pitch ex_screen) 3 2 (i + dst_ptr ex_screen) \<longrightarrow>
             ((\<lambda>i. 9 :: u8)(13 := 0)) i = 9"
    using r by (simp add: ex_screen_simps)
  show ?thesis
    using Copy_capture_restore_identity [OF ex_video_in_screen(2) ex_video_in_screen(1)
        ex_video_in_screen(3), where dest = 0 and width = 3 and height = 2 and buf = "\<lambda>a. 0"
        and ?vm2.0 = "(vmem ex_screen)(1013 := 0)" and ?am2.0 = "(\<lambda>i. 9)(13 := 0)"] v a
    by blast
qed

text \<open>
  C8.  With animation enabled, \<open>Draw(bp, mode, zoom)\<close> runs the template of the mode for
  each of the six modes and aborts (\<open>NOT_REACHED\<close>) for every other mode byte.
\<close>

theorem Draw_dispatch:
  assumes "dst_ptr S \<noteq> 0" and "\<not> screen_disable_anim S" and "anim_buf S \<noteq> None"
  shows "Draw P parent bp mode zoom S =
           (if mode \<in> {Normal, ColourRemap, Transparent, TransparentRemap, CrashRemap, BlackRemap}
            then Draw_mode P mode bp zoom S
            else Some (Inl NotReached))"
proof -
  from assms have en: "\<not> (screen_disable_anim S \<or> anim_buf S = None)" by simp
  consider "mode = Normal" | "mode = ColourRemap" | "mode = Transparent" | "mode = TransparentRemap"
    | "mode = CrashRemap" | "mode = BlackRemap"
    | "mode \<notin> {Normal, ColourRemap, Transparent, TransparentRemap, CrashRemap, BlackRemap}"
    by blast
  then show ?thesis
    by cases (simp_all add: Draw_def assms(1) en modes_distinct)
qed

lemma ex_screen_enabled:
  "dst_ptr ex_screen \<noteq> 0" "\<not> screen_disable_anim ex_screen" "anim_buf ex_screen \<noteq> None"
  by (simp_all add: ex_screen_def)

theorem Draw_dispatch_witness:
  "Draw ex_prims ex_parent ex_bp 6 0 ex_screen = Some (Inl NotReached) \<and>
   Draw ex_prims ex_parent ex_bp 255 0 ex_screen = Some (Inl NotReached) \<and>
   Draw ex_prims ex_parent ex_bp CrashRemap 0 ex_screen = Draw_mode ex_prims CrashRemap ex_bp 0 ex_screen"
  using Draw_dispatch [OF ex_screen_enabled, of ex_prims ex_parent ex_bp 6 0]
    Draw_dispatch [OF ex_screen_enabled, of ex_prims ex_parent ex_bp 255 0]
    Draw_dispatch [OF ex_screen_enabled, of ex_prims ex_parent ex_bp CrashRemap 0]
  by (simp add: Normal_def ColourRemap_def Transparent_def TransparentRemap_def CrashRemap_def
        BlackRemap_def)

lemma unat_BufferSize:
  assumes "5 * (unat width * unat height) < 2 ^ 64"
  shows "unat (BufferSize width height) = 5 * (unat width * unat height)"
proof -
  define A where "A = (ucast width :: u64)"
  define B where "B = (ucast height :: u64)"
  have "uint A = uint width" "uint B = uint height"
    by (simp_all add: A_def B_def uint_up_ucast is_up)
  then have u: "unat A = unat width" "unat B = unat height"
    by (metis unat_eq_nat_uint)+
  have "unat width < 2 ^ LENGTH(32)" by (rule unsigned_less)
  then have "unat (5 :: u64) * unat A < 2 ^ LENGTH(64)" by (simp add: u)
  then have "unat (5 * A) = unat (5 :: u64) * unat A"
    by (rule unat_mult_lem [THEN iffD1])
  then have a5: "unat (5 * A) = 5 * unat width" by (simp add: u)
  have e: "unat (5 * A) * unat B = 5 * (unat width * unat height)"
    by (simp add: a5 u)
  with assms have "unat (5 * A) * unat B < 2 ^ LENGTH(64)" by simp
  then have "unat (5 * A * B) = unat (5 * A) * unat B"
    by (rule unat_mult_lem [THEN iffD1])
  with e have "unat (5 * A * B) = 5 * (unat width * unat height)" by simp
  moreover have "BufferSize width height = 5 * A * B"
    by (simp add: BufferSize_def A_def B_def)
  ultimately show ?thesis by simp
qed

lemma CopyToBuffer_lines_frame_above:
  "0 \<le> width \<Longrightarrow> udst + int h * (5 * width) \<le> b \<Longrightarrow>
   CopyToBuffer_lines h width pitch vm am src al udst buf b = buf b"
proof (induction h arbitrary: src al udst buf)
  case 0
  then show ?case by simp
next
  case (Suc h)
  have hw: "0 \<le> int h * (5 * width)" using Suc.prems(1) by simp
  have a: "udst + 4 * width + width + int h * (5 * width) \<le> b"
    using Suc.prems(2) by (simp add: algebra_simps)
  have nw: "int (nat width) = width" using Suc.prems(1) by simp
  have b1: "udst + 4 * width + int (nat width) \<le> b"
    unfolding nw using a hw by linarith
  have b0: "udst + 4 * int (nat width) \<le> b"
    unfolding nw using a hw Suc.prems(1) by linarith
  show ?case
    using Suc.IH [OF Suc.prems(1) a] b1 b0
    by (simp add: Let_def copy_n_anim_to_buf_frame copy_n_vmem_to_buf_frame)
qed

text \<open>
  C9, as the code has it.  \<open>BufferSize(width, height)\<close> is five bytes per pixel, four of
  colour and exactly one of animation, as long as that fits \<open>size_t\<close>; it is the size of
  the buffer CopyToBuffer fills for a region of \<open>width\<close> by \<open>height\<close> pixels, whose
  bytes outside \<open>BufferSize(width, height)\<close> bytes from \<open>dest\<close> on are not written.
\<close>

theorem BufferSize_capture_bytes:
  assumes "5 * (unat width * unat height) < 2 ^ 64"
  shows "unat (BufferSize width height) = 4 * (unat width * unat height) + unat width * unat height \<and>
         (\<forall>b. b < dest \<or> dest + int (unat (BufferSize width height)) \<le> b \<longrightarrow>
              CopyToBuffer_lines (unat height) (int (unat width)) pitch vm am src al dest buf b = buf b)"
proof -
  have sz: "unat (BufferSize width height) = 5 * (unat width * unat height)"
    by (rule unat_BufferSize [OF assms])
  have w0: "0 \<le> int (unat width)" by simp
  have "CopyToBuffer_lines (unat height) (int (unat width)) pitch vm am src al dest buf b = buf b"
    if "b < dest \<or> dest + int (unat (BufferSize width height)) \<le> b" for b
  proof (cases "b < dest")
    case True
    then show ?thesis by (rule CopyToBuffer_lines_frame [OF w0])
  next
    case False
    with that have "dest + int (5 * (unat width * unat height)) \<le> b" by (simp add: sz)
    then have "dest + int (unat height) * (5 * int (unat width)) \<le> b"
      by (simp add: algebra_simps)
    then show ?thesis by (rule CopyToBuffer_lines_frame_above [OF w0])
  qed
  then show ?thesis by (simp add: sz)
qed

theorem BufferSize_capture_bytes_witness:
  "unat (BufferSize 640 480) = 4 * 307200 + 307200"
proof -
  have "5 * (unat (640 :: u32) * unat (480 :: u32)) < 2 ^ 64" by simp
  from BufferSize_capture_bytes [OF this, THEN conjunct1] show ?thesis by simp
qed

text \<open>
  The claim C9 as stated fails: for a region of 2 by 3 pixels, whose animation bytes are
  6, \<open>BufferSize\<close> returns 30.
\<close>

theorem BufferSize_counterexample:
  "unat (BufferSize 2 3) = 30 \<and> unat (BufferSize 2 3) \<noteq> 2 * 3"
  by (simp add: BufferSize_def)

lemma Draw_enabled:
  assumes "dst_ptr S \<noteq> 0" and "\<not> screen_disable_anim S" and "anim_buf S \<noteq> None"
  shows "Draw P parent bp mode zoom S =
           (if mode \<in> {Normal, ColourRemap, Transparent, TransparentRemap, CrashRemap, BlackRemap}
            then Draw_mode P mode bp zoom S
            else Some (Inl NotReached))"
proof -
  from assms have en: "\<not> (screen_disable_anim S \<or> anim_buf S = None)" by simp
  consider "mode = Normal" | "mode = ColourRemap" | "mode = Transparent" | "mode = TransparentRemap"
    | "mode = CrashRemap" | "mode = BlackRemap"
    | "mode \<notin> {Normal, ColourRemap, Transparent, TransparentRemap, CrashRemap, BlackRemap}"
    by blast
  then show ?thesis
    by cases (simp_all add: Draw_def assms(1) en modes_distinct)
qed

lemma parent_Draw_view:
  assumes an: "Draw P parent bp mode zoom (S\<lparr>screen_disable_anim := False, anim_buf := Some (\<lambda>i. 0)\<rparr>) =
           (if mode \<in> {Normal, ColourRemap, Transparent, TransparentRemap, CrashRemap, BlackRemap}
            then Draw_mode P mode bp zoom (S\<lparr>screen_disable_anim := False, anim_buf := Some (\<lambda>i. 0)\<rparr>)
            else Some (Inl NotReached))"
  shows "(case Blitter_32bppOptimized_Draw P S bp mode zoom (vmem S) of
             None \<Rightarrow> None
           | Some (Inl e) \<Rightarrow> Some (Inl e)
           | Some (Inr vm) \<Rightarrow> Some (Inr (S\<lparr>vmem := vm\<rparr>))) = (case Draw P parent bp mode zoom (S\<lparr>screen_disable_anim := False, anim_buf := Some (\<lambda>i. 0)\<rparr>) of
               None \<Rightarrow> None
             | Some (Inl e) \<Rightarrow> Some (Inl e)
             | Some (Inr S') \<Rightarrow> Some (Inr (S\<lparr>vmem := vmem S'\<rparr>)))"
proof -
  let ?A = "S\<lparr>screen_disable_anim := False, anim_buf := Some (\<lambda>i. 0)\<rparr>"
  have A: "S\<lparr>screen_disable_anim := False, vmem := vmem S, anim_buf := Some (\<lambda>i. 0)\<rparr> = ?A"
    by simp
  define R where "R = (if mode \<in> {Normal, ColourRemap, Transparent, TransparentRemap, CrashRemap, BlackRemap}
            then Draw_mode P mode bp zoom ?A
            else Some (Inl NotReached))"
  have b: "Blitter_32bppOptimized_Draw P S bp mode zoom (vmem S) =
       (case R of None \<Rightarrow> None | Some (Inl e) \<Rightarrow> Some (Inl e) | Some (Inr S') \<Rightarrow> Some (Inr (vmem S')))"
    unfolding Blitter_32bppOptimized_Draw_def Let_def A R_def by (rule refl)
  have d: "Draw P parent bp mode zoom ?A = R"
    unfolding R_def by (rule an)
  show ?thesis
    unfolding b d by (cases R) (auto split: sum.splits)
qed


text \<open>
  C7, as the code has it.  When animation is globally disabled or the animation buffer is
  null, Draw hands the request to the parent blitter and puts the parent's colour memory
  in place, the animation buffer untouched; with the parent as the spec describes it, the
  colours are those of the animated Draw on the same screen with all animation bytes
  forced to 0.  The other operations do not treat the two conditions alike.  When
  animation is globally disabled, SetPixel and DrawRect hand over to the parent as well,
  and CopyToBuffer and CopyFromBuffer fail their assertion.  With animation enabled and a
  null animation buffer, SetPixel writes through the null pointer, DrawRect fails its
  assertion, and CopyToBuffer and CopyFromBuffer return at once: the caller's buffer and
  the screen stay as they are, the colours included.
\<close>

theorem animation_disabled_fallback:
  assumes "dst_ptr S \<noteq> 0"
  shows "(screen_disable_anim S \<or> anim_buf S = None \<longrightarrow>
            Draw P (parent\<lparr>parent_Draw := Blitter_32bppOptimized_Draw P S\<rparr>) bp mode zoom S =
              (case Draw P parent bp mode zoom
                      (S\<lparr>screen_disable_anim := False, anim_buf := Some (\<lambda>i. 0)\<rparr>) of
                 None \<Rightarrow> None
               | Some (Inl e) \<Rightarrow> Some (Inl e)
               | Some (Inr S') \<Rightarrow> Some (Inr (S\<lparr>vmem := vmem S'\<rparr>)))) \<and>
         (screen_disable_anim S \<longrightarrow>
            SetPixel parent video x y colour S =
              Inr (S\<lparr>vmem := parent_SetPixel parent video x y colour (vmem S)\<rparr>) \<and>
            DrawRect parent video width height colour S =
              Inr (S\<lparr>vmem := parent_DrawRect parent video width height colour (vmem S)\<rparr>) \<and>
            CopyToBuffer video dest width height S buf = Inl AssertionFailed \<and>
            CopyFromBuffer video dest width height buf S = Inl AssertionFailed) \<and>
         (\<not> screen_disable_anim S \<and> anim_buf S = None \<longrightarrow>
            SetPixel parent video x y colour S = Inl NullDereference \<and>
            DrawRect parent video width height colour S = Inl AssertionFailed) \<and>
         (\<not> screen_disable_anim S \<and> video_in_screen S video \<and> anim_buf S = None \<longrightarrow>
            CopyToBuffer video dest width height S buf = Inr buf \<and>
            CopyFromBuffer video dest width height buf S = Inr S)"
proof (intro conjI impI)
  let ?A = "S\<lparr>screen_disable_anim := False, anim_buf := Some (\<lambda>i. 0)\<rparr>"
  assume fb: "screen_disable_anim S \<or> anim_buf S = None"
  have an: "Draw P parent bp mode zoom ?A =
           (if mode \<in> {Normal, ColourRemap, Transparent, TransparentRemap, CrashRemap, BlackRemap}
            then Draw_mode P mode bp zoom ?A
            else Some (Inl NotReached))"
    using assms by (intro Draw_enabled) simp_all
  have "Draw P (parent\<lparr>parent_Draw := Blitter_32bppOptimized_Draw P S\<rparr>) bp mode zoom S =
          (case Blitter_32bppOptimized_Draw P S bp mode zoom (vmem S) of
             None \<Rightarrow> None
           | Some (Inl e) \<Rightarrow> Some (Inl e)
           | Some (Inr vm) \<Rightarrow> Some (Inr (S\<lparr>vmem := vm\<rparr>)))"
    using assms fb by (simp add: Draw_def)
  also have "\<dots> = (case Draw P parent bp mode zoom ?A of
               None \<Rightarrow> None
             | Some (Inl e) \<Rightarrow> Some (Inl e)
             | Some (Inr S') \<Rightarrow> Some (Inr (S\<lparr>vmem := vmem S'\<rparr>)))"
    by (rule parent_Draw_view [OF an])
  finally show "Draw P (parent\<lparr>parent_Draw := Blitter_32bppOptimized_Draw P S\<rparr>) bp mode zoom S =
              (case Draw P parent bp mode zoom ?A of
                 None \<Rightarrow> None
               | Some (Inl e) \<Rightarrow> Some (Inl e)
               | Some (Inr S') \<Rightarrow> Some (Inr (S\<lparr>vmem := vmem S'\<rparr>)))" .
next
  assume "screen_disable_anim S"
  then show "SetPixel parent video x y colour S =
              Inr (S\<lparr>vmem := parent_SetPixel parent video x y colour (vmem S)\<rparr>)"
    by (simp add: SetPixel_def)
next
  assume "screen_disable_anim S"
  then show "DrawRect parent video width height colour S =
              Inr (S\<lparr>vmem := parent_DrawRect parent video width height colour (vmem S)\<rparr>)"
    by (simp add: DrawRect_def)
next
  assume "screen_disable_anim S"
  then show "CopyToBuffer video dest width height S buf = Inl AssertionFailed"
    by (simp add: CopyToBuffer_def)
next
  assume "screen_disable_anim S"
  then show "CopyFromBuffer video dest width height buf S = Inl AssertionFailed"
    by (simp add: CopyFromBuffer_def)
next
  assume "\<not> screen_disable_anim S \<and> anim_buf S = None"
  then show "SetPixel parent video x y colour S = Inl NullDereference"
    by (simp add: SetPixel_def Let_def)
next
  assume "\<not> screen_disable_anim S \<and> anim_buf S = None"
  then show "DrawRect parent video width height colour S = Inl AssertionFailed"
    by (simp add: DrawRect_def)
next
  assume "\<not> screen_disable_anim S \<and> video_in_screen S video \<and> anim_buf S = None"
  then show "CopyToBuffer video dest width height S buf = Inr buf"
    by (simp add: CopyToBuffer_def)
next
  assume "\<not> screen_disable_anim S \<and> video_in_screen S video \<and> anim_buf S = None"
  then show "CopyFromBuffer video dest width height buf S = Inr S"
    by (simp add: CopyFromBuffer_def)
qed

lemma ex_screen_no_anim_simps:
  "dst_ptr ex_screen_no_anim \<noteq> 0" "\<not> screen_disable_anim ex_screen_no_anim"
  "video_in_screen ex_screen_no_anim 1012" "anim_buf ex_screen_no_anim = None"
  "vmem ex_screen_no_anim 1012 = 0xFF102030"
  by (simp_all add: ex_screen_no_anim_def ex_screen_def video_in_screen_def)

lemma ex_zero_anim:
  "dst_ptr (ex_screen_no_anim\<lparr>screen_disable_anim := False, anim_buf := Some (\<lambda>i. 0)\<rparr>) \<noteq> 0"
  "\<not> screen_disable_anim (ex_screen_no_anim\<lparr>screen_disable_anim := False, anim_buf := Some (\<lambda>i. 0)\<rparr>)"
  "anim_buf (ex_screen_no_anim\<lparr>screen_disable_anim := False, anim_buf := Some (\<lambda>i. 0)\<rparr>) \<noteq> None"
  "anim_buf (ex_screen_no_anim\<lparr>screen_disable_anim := False, anim_buf := Some (\<lambda>i. 0)\<rparr>) = Some (\<lambda>i. 0)"
  "vmem (ex_screen_no_anim\<lparr>screen_disable_anim := False, anim_buf := Some (\<lambda>i. 0)\<rparr>) = (\<lambda>q. 0xFF102030)"
  by (simp_all add: ex_screen_no_anim_def ex_screen_def)

lemma ex_zero_anim_draw:
  "\<exists>S1. Draw ex_prims ex_parent ex_bp Normal 0
           (ex_screen_no_anim\<lparr>screen_disable_anim := False, anim_buf := Some (\<lambda>i. 0)\<rparr>) = Some (Inr S1) \<and>
        vmem S1 1014 = ex_blend 5 5 5 0x80 0xFF102030"
proof -
  let ?A = "ex_screen_no_anim\<lparr>screen_disable_anim := False, anim_buf := Some (\<lambda>i. 0)\<rparr>"
  have a: "pixel_address ex_bp 0 2 = 1014"
    by (simp add: ex_bp_simps)
  have p: "Colour_r (ex_palette 5) = 5" "Colour_g (ex_palette 5) = 5" "Colour_b (ex_palette 5) = 5"
    by (simp_all add: ex_palette_def mk_Colour_def Colour_r_def Colour_g_def Colour_b_def)
  have d: "Draw ex_prims ex_parent ex_bp Normal 0 ?A = Draw_mode ex_prims Normal ex_bp 0 ?A"
    using Draw_enabled [OF ex_zero_anim(1) ex_zero_anim(2) ex_zero_anim(3), of ex_prims ex_parent ex_bp Normal 0]
    by simp
  from Draw_mode_pixel [OF ex_holds(1) ex_params(1) ex_zero_anim(4) ex_pitch(1) ex_in_rect(1)
      ex_in_rect(2), of ex_prims Normal]
  obtain S1 am1 where s: "Draw_mode ex_prims Normal ex_bp 0 ?A = Some (Inr S1)"
    and e: "(vmem S1 (pixel_address ex_bp 0 2), am1 (pixel_address ex_bp 0 2 - dst_ptr ?A)) =
             compose_at (compose_px ex_prims (bp_remap ex_bp) Normal)
               (sprite_pixel ex_lines (nat (bp_skip_top ex_bp) + 0) (nat (bp_skip_left ex_bp) + 2))
               (vmem ?A (pixel_address ex_bp 0 2), (\<lambda>i. 0) (pixel_address ex_bp 0 2 - dst_ptr ?A))"
    by blast
  have "vmem S1 1014 = ex_blend 5 5 5 0x80 0xFF102030"
    using e modes_distinct unfolding a ex_pixel_at(2) ex_zero_anim(5)
    by (simp add: compose_at_def compose_px_def px_normal_blend_def Let_def GB_low_byte_5
        ex_translucent ex_prims_def p)
  with d s show ?thesis by simp
qed

theorem animation_disabled_fallback_witness:
  "colour_after (Draw ex_prims (ex_parent\<lparr>parent_Draw := Blitter_32bppOptimized_Draw ex_prims ex_screen_no_anim\<rparr>)
      ex_bp Normal 0 ex_screen_no_anim) 1014 = Some (ex_blend 5 5 5 0x80 0xFF102030) \<and>
   anim_after (Draw ex_prims (ex_parent\<lparr>parent_Draw := Blitter_32bppOptimized_Draw ex_prims ex_screen_no_anim\<rparr>)
      ex_bp Normal 0 ex_screen_no_anim) 14 = None \<and>
   SetPixel ex_parent 1012 0 0 \<lparr>colour_p = 7\<rparr> ex_screen_no_anim = Inl NullDereference \<and>
   DrawRect ex_parent 1012 1 1 \<lparr>colour_p = 7\<rparr> ex_screen_no_anim = Inl AssertionFailed \<and>
   CopyToBuffer 1012 0 1 1 ex_screen_no_anim (\<lambda>a. 0) = Inr (\<lambda>a. 0) \<and>
   CopyFromBuffer 1012 0 1 1 (\<lambda>a. 0) ex_screen_no_anim = Inr ex_screen_no_anim"
proof -
  from ex_zero_anim_draw obtain S1 where
    s: "Draw ex_prims ex_parent ex_bp Normal 0
           (ex_screen_no_anim\<lparr>screen_disable_anim := False, anim_buf := Some (\<lambda>i. 0)\<rparr>) = Some (Inr S1)"
    and v: "vmem S1 1014 = ex_blend 5 5 5 0x80 0xFF102030"
    by blast
  show ?thesis
    using animation_disabled_fallback [OF ex_screen_no_anim_simps(1),
        where P = ex_prims and parent = ex_parent and bp = ex_bp and mode = Normal and zoom = 0
          and video = 1012 and x = 0 and y = 0 and colour = "\<lparr>colour_p = 7\<rparr>"
          and width = 1 and height = 1 and dest = 0 and buf = "\<lambda>a. 0"]
    by (simp add: ex_screen_no_anim_simps s v colour_after_def anim_after_def)
qed

text \<open>
  The claim C7 as stated fails for the operations other than Draw: with a null animation
  buffer CopyToBuffer captures nothing of a colour cell that is not zero, CopyFromBuffer
  restores nothing of a captured colour that differs from the cell, and SetPixel and
  DrawRect do not draw at all.
\<close>

theorem animation_disabled_fallback_counterexample:
  "CopyToBuffer 1012 0 1 1 ex_screen_no_anim (\<lambda>a. 0) = Inr (\<lambda>a. 0) \<and>
   vmem ex_screen_no_anim 1012 = 0xFF102030 \<and>
   CopyFromBuffer 1012 0 1 1 (\<lambda>a. 0) ex_screen_no_anim = Inr ex_screen_no_anim \<and>
   load32 (\<lambda>a. 0) 0 \<noteq> vmem ex_screen_no_anim 1012 \<and>
   SetPixel ex_parent 1012 0 0 \<lparr>colour_p = 7\<rparr> ex_screen_no_anim = Inl NullDereference \<and>
   DrawRect ex_parent 1012 1 1 \<lparr>colour_p = 7\<rparr> ex_screen_no_anim = Inl AssertionFailed"
  by (simp add: CopyToBuffer_def CopyFromBuffer_def ex_screen_no_anim_simps load32_def
      SetPixel_def DrawRect_def Let_def)

subsection \<open>ScrollBuffer\<close>

text \<open>
  What moving a window line by line leaves in a cell: when no line read has been written
  by a line moved before it, every cell of the destination window holds what the cell
  \<open>src - dest\<close> further on held before, and every other cell is unchanged.
\<close>

lemma MovePixels_at:
  assumes "\<forall>d. 0 < d \<and> d < int h \<longrightarrow> int w \<le> \<bar>d * step + (src - dest)\<bar>"
  shows "MovePixels h w step src dest mem q =
         (if \<exists>k<h. dest + int k * step \<le> q \<and> q < dest + int k * step + int w
          then mem (q + (src - dest)) else mem q)"
  using assms
proof (induction h arbitrary: src dest mem)
  case 0
  show ?case by simp
next
  case (Suc h)
  let ?m = "move_line mem src dest w"
  have sh: "\<forall>d. 0 < d \<and> d < int h \<longrightarrow> int w \<le> \<bar>d * step + ((src + step) - (dest + step))\<bar>"
    using Suc.prems by simp
  have ih: "MovePixels h w step (src + step) (dest + step) ?m q =
         (if \<exists>k<h. dest + step + int k * step \<le> q \<and> q < dest + step + int k * step + int w
          then ?m (q + (src - dest)) else ?m q)"
  proof -
    have e: "src + step - (dest + step) = src - dest" by simp
    show ?thesis using Suc.IH [OF sh, of ?m] unfolding e .
  qed
  have ex: "(\<exists>k<Suc h. dest + int k * step \<le> q \<and> q < dest + int k * step + int w) =
            ((dest \<le> q \<and> q < dest + int w) \<or>
             (\<exists>k<h. dest + step + int k * step \<le> q \<and> q < dest + step + int k * step + int w))"
    (is "?L = (?A \<or> ?B)")
  proof
    assume ?L
    then obtain k where k: "k < Suc h" "dest + int k * step \<le> q" "q < dest + int k * step + int w"
      by blast
    show "?A \<or> ?B"
    proof (cases k)
      case 0
      then show ?thesis using k by simp
    next
      case (Suc j)
      then have "j < h" "dest + step + int j * step \<le> q" "q < dest + step + int j * step + int w"
        using k by (simp_all add: algebra_simps)
      then show ?thesis by blast
    qed
  next
    assume "?A \<or> ?B"
    then show ?L
    proof
      assume ?A
      then have "dest + int 0 * step \<le> q \<and> q < dest + int 0 * step + int w" by simp
      then show ?L by blast
    next
      assume ?B
      then obtain j where j: "j < h" "dest + step + int j * step \<le> q"
          "q < dest + step + int j * step + int w" by blast
      then have "Suc j < Suc h" "dest + int (Suc j) * step \<le> q" "q < dest + int (Suc j) * step + int w"
        by (simp_all add: algebra_simps)
      then show ?L by blast
    qed
  qed
  have none: "?m x = mem x" if "\<not> (dest \<le> x \<and> x < dest + int w)" for x
    using that by (auto simp add: move_line_def)
  have later: "?m (q + (src - dest)) = mem (q + (src - dest))" if b: ?B
  proof -
    from b obtain j where j: "j < h" "dest + step + int j * step \<le> q"
          "q < dest + step + int j * step + int w" by blast
    have "int w \<le> \<bar>(int j + 1) * step + (src - dest)\<bar>"
      using Suc.prems j(1) by simp
    then have "\<not> (dest \<le> q + (src - dest) \<and> q + (src - dest) < dest + int w)"
      using j(2,3) by (simp add: algebra_simps abs_if split: if_splits)
    then show ?thesis by (rule none)
  qed
  have first: "?m q = mem (q + (src - dest))" if "?A"
    using that by (simp add: move_line_def algebra_simps)
  show ?case
    unfolding MovePixels.simps ih ex
    using later first none [of q] by auto
qed

text \<open>
  The window of lines 483 to 512 counted from \<open>base\<close>, for a rectangle not wider than the
  pitch and a scroll not larger than the rectangle: the pixel \<open>(x, y)\<close> of the rectangle
  whose source \<open>(x - scroll_x, y - scroll_y)\<close> is in the rectangle too receives what the
  source held, whatever the signs of \<open>scroll_x\<close> and \<open>scroll_y\<close>.
\<close>

lemma scroll_window_conserves:
  fixes mem :: "int \<Rightarrow> 'a"
  assumes geo: "0 \<le> width" "width \<le> pitch" "0 \<le> height" "width < 2 ^ 31" "height < 2 ^ 31"
      "\<bar>scroll_x\<bar> \<le> width" "\<bar>scroll_y\<bar> \<le> height"
    and dpx: "left \<le> x" "x < left + width" "top' \<le> y" "y < top' + height"
    and spx: "left \<le> x - scroll_x" "x - scroll_x < left + width"
      "top' \<le> y - scroll_y" "y - scroll_y < top' + height"
  shows "(case scroll_window base pitch left top' width height scroll_x scroll_y of
            (src, dest, tw, th, step) \<Rightarrow> MovePixels th tw step src dest mem)
           (base + x + y * pitch) =
         mem (base + (x - scroll_x) + (y - scroll_y) * pitch)"
proof -
  define tw where "tw = nat (width - \<bar>scroll_x\<bar>)"
  define xo where "xo = (if scroll_x \<ge> 0 then scroll_x else 0)"
  have twu: "to_uint (width + (if scroll_x \<ge> 0 then - scroll_x else scroll_x)) = tw"
  proof -
    have a: "width + (if scroll_x \<ge> 0 then - scroll_x else scroll_x) = width - \<bar>scroll_x\<bar>"
      by simp
    have b: "width - \<bar>scroll_x\<bar> < 2 ^ 32" using geo(4) by simp
    show ?thesis unfolding a tw_def using geo(6) b by (intro to_uint_nat) simp_all
  qed
  have xin: "left + xo \<le> x" "x < left + xo + int tw"
    using dpx spx geo by (simp_all add: xo_def tw_def)
  have p0: "0 \<le> pitch" using geo by simp
  show ?thesis
  proof (cases "scroll_y > 0")
    case True
    define th where "th = nat (height - scroll_y)"
    define d0 where "d0 = base + left + (top' + height - 1) * pitch"
    have thu: "to_uint (height - scroll_y) = th"
      unfolding th_def using geo True by (intro to_uint_nat) simp_all
    have win: "scroll_window base pitch left top' width height scroll_x scroll_y =
        (d0 - scroll_y * pitch + (xo - scroll_x), d0 + xo, tw, th, - pitch)"
      using True twu thu by (simp add: scroll_window_def Let_def d0_def xo_def)
    have delta: "(d0 - scroll_y * pitch + (xo - scroll_x)) - (d0 + xo) = - (scroll_y * pitch) - scroll_x"
      by simp
    have sp: "pitch \<le> scroll_y * pitch"
      using mult_right_mono [of 1 scroll_y pitch] True p0 by simp
    have clash: "\<forall>d. 0 < d \<and> d < int th \<longrightarrow>
        int tw \<le> \<bar>d * (- pitch) + ((d0 - scroll_y * pitch + (xo - scroll_x)) - (d0 + xo))\<bar>"
    proof (intro allI impI)
      fix d :: int assume d: "0 < d \<and> d < int th"
      have dp: "pitch \<le> d * pitch"
        using mult_right_mono [of 1 d pitch] d p0 by simp
      have "int tw \<le> pitch" using geo by (simp add: tw_def)
      then show "int tw \<le> \<bar>d * (- pitch) + ((d0 - scroll_y * pitch + (xo - scroll_x)) - (d0 + xo))\<bar>"
        unfolding delta using dp sp geo(1,2,6) by (simp add: tw_def)
    qed
    define k where "k = nat (top' + height - 1 - y)"
    have kth: "k < th" using dpx spx True by (simp add: k_def th_def)
    have ki: "int k = top' + height - 1 - y" using dpx by (simp add: k_def)
    have row: "d0 + xo + int k * (- pitch) = base + left + xo + y * pitch"
      unfolding ki d0_def by (simp add: algebra_simps)
    have inrow: "d0 + xo + int k * (- pitch) \<le> base + x + y * pitch \<and>
                 base + x + y * pitch < d0 + xo + int k * (- pitch) + int tw"
      unfolding row using xin by simp
    have ex: "\<exists>k<th. d0 + xo + int k * (- pitch) \<le> base + x + y * pitch \<and>
                 base + x + y * pitch < d0 + xo + int k * (- pitch) + int tw"
      using kth inrow by blast
    have src: "base + x + y * pitch + ((d0 - scroll_y * pitch + (xo - scroll_x)) - (d0 + xo)) =
               base + (x - scroll_x) + (y - scroll_y) * pitch"
      unfolding delta by (simp add: algebra_simps)
    have mv: "MovePixels th tw (- pitch) (d0 - scroll_y * pitch + (xo - scroll_x)) (d0 + xo) mem
                (base + x + y * pitch) =
              mem (base + x + y * pitch + ((d0 - scroll_y * pitch + (xo - scroll_x)) - (d0 + xo)))"
      by (subst MovePixels_at [OF clash]) (simp only: ex if_True)
    show ?thesis
      by (simp only: win prod.case mv src)
  next
    case False
    define th where "th = nat (height + scroll_y)"
    define d0 where "d0 = base + left + top' * pitch"
    have thu: "to_uint (height + scroll_y) = th"
      unfolding th_def using geo False by (intro to_uint_nat) simp_all
    have win: "scroll_window base pitch left top' width height scroll_x scroll_y =
        (d0 - scroll_y * pitch + (xo - scroll_x), d0 + xo, tw, th, pitch)"
      using False twu thu by (simp add: scroll_window_def Let_def d0_def xo_def)
    have delta: "(d0 - scroll_y * pitch + (xo - scroll_x)) - (d0 + xo) = - (scroll_y * pitch) - scroll_x"
      by simp
    have sp: "scroll_y * pitch \<le> 0"
      using False p0 by (simp add: mult_le_0_iff)
    have clash: "\<forall>d. 0 < d \<and> d < int th \<longrightarrow>
        int tw \<le> \<bar>d * pitch + ((d0 - scroll_y * pitch + (xo - scroll_x)) - (d0 + xo))\<bar>"
    proof (intro allI impI)
      fix d :: int assume d: "0 < d \<and> d < int th"
      have dp: "pitch \<le> d * pitch"
        using mult_right_mono [of 1 d pitch] d p0 by simp
      show "int tw \<le> \<bar>d * pitch + ((d0 - scroll_y * pitch + (xo - scroll_x)) - (d0 + xo))\<bar>"
        unfolding delta using dp sp geo(1,2,6) by (simp add: tw_def)
    qed
    define k where "k = nat (y - top')"
    have kth: "k < th" using dpx spx False by (simp add: k_def th_def)
    have ki: "int k = y - top'" using dpx by (simp add: k_def)
    have row: "d0 + xo + int k * pitch = base + left + xo + y * pitch"
      unfolding ki d0_def by (simp add: algebra_simps)
    have inrow: "d0 + xo + int k * pitch \<le> base + x + y * pitch \<and>
                 base + x + y * pitch < d0 + xo + int k * pitch + int tw"
      unfolding row using xin by simp
    have ex: "\<exists>k<th. d0 + xo + int k * pitch \<le> base + x + y * pitch \<and>
                 base + x + y * pitch < d0 + xo + int k * pitch + int tw"
      using kth inrow by blast
    have src: "base + x + y * pitch + ((d0 - scroll_y * pitch + (xo - scroll_x)) - (d0 + xo)) =
               base + (x - scroll_x) + (y - scroll_y) * pitch"
      unfolding delta by (simp add: algebra_simps)
    have mv: "MovePixels th tw pitch (d0 - scroll_y * pitch + (xo - scroll_x)) (d0 + xo) mem
                (base + x + y * pitch) =
              mem (base + x + y * pitch + ((d0 - scroll_y * pitch + (xo - scroll_x)) - (d0 + xo)))"
      by (subst MovePixels_at [OF clash]) (simp only: ex if_True)
    show ?thesis
      by (simp only: win prod.case mv src)
  qed
qed

text \<open>
  So ScrollBuffer moves the colours of the rectangle counted from \<open>video\<close> and the
  animation bytes of the rectangle counted from the start of the animation buffer: the
  two are the same pixels when \<open>video\<close> is \<open>_screen.dst_ptr\<close>.  The animation part does
  not depend on \<open>video\<close> at all.
\<close>

lemma ScrollBuffer_conserves:
  assumes en: "\<not> screen_disable_anim S" "anim_buf S = Some am" "video_in_screen S video"
    and geo: "0 \<le> width" "width \<le> s_pitch S" "0 \<le> height" "width < 2 ^ 31" "height < 2 ^ 31"
      "\<bar>scroll_x\<bar> \<le> width" "\<bar>scroll_y\<bar> \<le> height"
    and dpx: "left \<le> x" "x < left + width" "top' \<le> y" "y < top' + height"
    and spx: "left \<le> x - scroll_x" "x - scroll_x < left + width"
      "top' \<le> y - scroll_y" "y - scroll_y < top' + height"
  shows "colour_after (Some (ScrollBuffer video left top' width height scroll_x scroll_y S))
           (video + x + y * s_pitch S) =
         Some (vmem S (video + (x - scroll_x) + (y - scroll_y) * s_pitch S)) \<and>
         anim_after (Some (ScrollBuffer video left top' width height scroll_x scroll_y S))
           (x + y * s_pitch S) =
         Some (am ((x - scroll_x) + (y - scroll_y) * s_pitch S))"
proof -
  have c: "Base_ScrollBuffer video (s_pitch S) left top' width height scroll_x scroll_y (vmem S)
             (video + x + y * s_pitch S) =
           vmem S (video + (x - scroll_x) + (y - scroll_y) * s_pitch S)"
    unfolding Base_ScrollBuffer_def Let_def
    by (rule scroll_window_conserves [OF geo dpx spx])
  have a: "(case scroll_window 0 (s_pitch S) left top' width height scroll_x scroll_y of
             (src, dest, tw, th, step) \<Rightarrow> MovePixels th tw step src dest am)
             (0 + x + y * s_pitch S) =
           am (0 + (x - scroll_x) + (y - scroll_y) * s_pitch S)"
    by (rule scroll_window_conserves [OF geo dpx spx])
  show ?thesis
    using c a en
    by (simp add: ScrollBuffer_def colour_after_def anim_after_def Let_def split: prod.splits)
qed

lemma ScrollBuffer_anim_ignores_video:
  assumes "video_in_screen S video" and "video_in_screen S video'"
  shows "anim_after (Some (ScrollBuffer video left top' width height scroll_x scroll_y S)) i =
         anim_after (Some (ScrollBuffer video' left top' width height scroll_x scroll_y S)) i"
  using assms
  by (simp add: ScrollBuffer_def anim_after_def Let_def split: option.splits prod.splits)

text \<open>
  C3 at an input the assertions admit, \<open>video = _screen.dst_ptr + 1\<close>: a rectangle of two
  pixels in one line (the cells 1001 and 1002, whose animation bytes are 1 and 2) scrolled
  by \<open>scroll_x = 1\<close>.  The colour of cell 1001 arrives in cell 1002, but the animation
  byte of that pixel keeps its old value 12 instead of the 11 of the source pixel; the
  byte that did move is that of cell 1000, outside the rectangle, into byte 1.
\<close>

theorem ScrollBuffer_video_offset:
  "video_in_screen ex_scroll_screen 1001 \<and>
   colour_after (Some (ScrollBuffer 1001 0 0 2 1 1 0 ex_scroll_screen)) 1002 = Some 1001 \<and>
   anim_after (Some (ScrollBuffer 1001 0 0 2 1 1 0 ex_scroll_screen)) 2 = Some 12 \<and>
   anim_after (Some (ScrollBuffer 1001 0 0 2 1 1 0 ex_scroll_screen)) 1 = Some 10"
  by (simp add: ScrollBuffer_def Base_ScrollBuffer_def scroll_window_def video_in_screen_def
        ex_scroll_screen_def colour_after_def anim_after_def to_uint_def move_line_def Let_def)

end
